theory Spec2Isabelle
  imports Main
begin

section \<open>Values, exceptions and the environment\<close>

text \<open>
  The program is \<^verbatim>\<open>download-worker.py\<close>: it lists the plugins of the WordPress.org
  API page by page (\<^verbatim>\<open>fetch_plugins\<close>), keeps those whose install count lies in a
  range (\<^verbatim>\<open>filter_plugins\<close>) and downloads their archives (\<^verbatim>\<open>download_plugin\<close>)
  through a thread pool (\<^verbatim>\<open>main\<close>).

  What \<^verbatim>\<open>resp.json()\<close> returns is a Python value built from JSON. Floating point
  numbers are left out of the model; every other JSON value is there. Of \<^verbatim>\<open>main\<close> the
  model has the thread pool; argument parsing and printing are left out.
\<close>

datatype pyval =
    PyNone
  | PyBool bool
  | PyInt int
  | PyStr string
  | PyList "pyval list"
  | PyDict "(string \<times> pyval) list"

text \<open>
  Every exception the operations of the program raise is a subclass of Python's
  \<^verbatim>\<open>Exception\<close>: \<^verbatim>\<open>requests\<close> raises subclasses of \<^verbatim>\<open>RequestException\<close>
  (timeout, connection error, DNS failure, broken stream), file operations raise
  \<^verbatim>\<open>OSError\<close>, \<^verbatim>\<open>resp.json()\<close> raises a \<^verbatim>\<open>ValueError\<close>, and ill-typed values
  raise \<^verbatim>\<open>AttributeError\<close>, \<^verbatim>\<open>TypeError\<close> or \<^verbatim>\<open>KeyError\<close>. Each carries the
  text that \<^verbatim>\<open>str(e)\<close> gives.
\<close>

datatype py_exception =
    RequestException string
  | OSError string
  | ValueError string
  | AttributeError string
  | TypeError string
  | KeyError string

fun message :: "py_exception \<Rightarrow> string" where
  "message (RequestException m) = m"
| "message (OSError m) = m"
| "message (ValueError m) = m"
| "message (AttributeError m) = m"
| "message (TypeError m) = m"
| "message (KeyError m) = m"

fun type_name :: "pyval \<Rightarrow> string" where
  "type_name PyNone = ''NoneType''"
| "type_name (PyBool _) = ''bool''"
| "type_name (PyInt _) = ''int''"
| "type_name (PyStr _) = ''str''"
| "type_name (PyList _) = ''list''"
| "type_name (PyDict _) = ''dict''"

text \<open>\<^verbatim>\<open>v.get(key, default)\<close>: only a dict has the method.\<close>

fun py_get :: "pyval \<Rightarrow> string \<Rightarrow> pyval \<Rightarrow> py_exception + pyval" where
  "py_get (PyDict d) key dflt = Inr (case map_of d key of None \<Rightarrow> dflt | Some v \<Rightarrow> v)"
| "py_get v key dflt =
     Inl (AttributeError ([CHR 0x27] @ type_name v @ [CHR 0x27] @ '' object has no attribute '' @ [CHR 0x27] @ ''get'' @ [CHR 0x27]))"

text \<open>
  \<^verbatim>\<open>a <= b\<close> where one side is an \<^verbatim>\<open>int\<close>: a bool counts as 0 or 1, anything else
  that is not a number raises \<^verbatim>\<open>TypeError\<close>.
\<close>

fun le_error :: "pyval \<Rightarrow> pyval \<Rightarrow> py_exception" where
  "le_error a b =
     TypeError ([CHR 0x27] @ ''<='' @ [CHR 0x27] @ '' not supported between instances of '' @
                [CHR 0x27] @ type_name a @ [CHR 0x27] @ '' and '' @ [CHR 0x27] @ type_name b @ [CHR 0x27])"

fun int_le_py :: "int \<Rightarrow> pyval \<Rightarrow> py_exception + bool" where
  "int_le_py a (PyInt b) = Inr (a \<le> b)"
| "int_le_py a (PyBool b) = Inr (a \<le> (if b then 1 else 0))"
| "int_le_py a v = Inl (le_error (PyInt a) v)"

fun py_le_int :: "pyval \<Rightarrow> int \<Rightarrow> py_exception + bool" where
  "py_le_int (PyInt a) b = Inr (a \<le> b)"
| "py_le_int (PyBool a) b = Inr ((if a then 1 else 0) \<le> b)"
| "py_le_int v b = Inl (le_error v (PyInt b))"

section \<open>filter\_plugins\<close>

text \<open>
  The condition of the comprehension,
  \<^verbatim>\<open>min_installs <= p.get("active_installs", 0) <= max_installs\<close>. The chained
  comparison evaluates the middle once and the right comparison only when the left one
  holds.
\<close>

definition in_range :: "pyval \<Rightarrow> int \<Rightarrow> int \<Rightarrow> py_exception + bool" where
  "in_range p min_installs max_installs =
     (case py_get p ''active_installs'' (PyInt 0) of
        Inl e \<Rightarrow> Inl e
      | Inr v \<Rightarrow>
          (case int_le_py min_installs v of
             Inl e \<Rightarrow> Inl e
           | Inr lower \<Rightarrow> if lower then py_le_int v max_installs else Inr False))"

text \<open>The list comprehension: an exception in the condition ends it.\<close>

fun filter_plugins :: "pyval list \<Rightarrow> int \<Rightarrow> int \<Rightarrow> py_exception + pyval list" where
  "filter_plugins [] min_installs max_installs = Inr []"
| "filter_plugins (p # plugins) min_installs max_installs =
     (case in_range p min_installs max_installs of
        Inl e \<Rightarrow> Inl e
      | Inr keep \<Rightarrow>
          (case filter_plugins plugins min_installs max_installs of
             Inl e \<Rightarrow> Inl e
           | Inr rest \<Rightarrow> Inr (if keep then p # rest else rest)))"

section \<open>The network and the file system\<close>

text \<open>
  \<^verbatim>\<open>str(n)\<close> for an \<^verbatim>\<open>int\<close>, as the f-strings format the status code.
\<close>

fun str_nat :: "nat \<Rightarrow> string" where
  "str_nat n =
     (if n < 10 then [''0123456789'' ! n]
      else str_nat (n div 10) @ [''0123456789'' ! (n mod 10)])"

declare str_nat.simps [simp del]

definition str_int :: "int \<Rightarrow> string" where
  "str_int i = (if i < 0 then ''-'' @ str_nat (nat (- i)) else str_nat (nat i))"

text \<open>
  A call \<^verbatim>\<open>requests.get(url, params=...)\<close> is identified by its URL and query
  parameters. The response object has the three members the program reads:
  \<^verbatim>\<open>status_code\<close>, \<^verbatim>\<open>json()\<close> (which raises when the body is not JSON), and
  \<^verbatim>\<open>iter_content(...)\<close>, the stream of body chunks, which may break with an exception
  at any point.
\<close>

record request =
  url :: string
  params :: "(string \<times> pyval) list"

datatype chunk_event = Chunk string | Broken py_exception

record response =
  status_code :: int
  json :: "py_exception + pyval"
  iter_content :: "chunk_event list"

text \<open>
  The environment answers each request (\<open>Inl\<close>: \<^verbatim>\<open>requests.get\<close> raises, for a timeout,
  a refused connection or a DNS failure) and says for which paths \<^verbatim>\<open>open(path, "wb")\<close>
  raises. The remote service answers equal requests equally.
\<close>

record env =
  http_get :: "request \<Rightarrow> py_exception + response"
  open_wb :: "string \<Rightarrow> py_exception option"

text \<open>
  The state the program changes: the files on disk (path to content) and the log of the
  requests sent so far. Console output is not part of the model.
\<close>

record world =
  files :: "string \<rightharpoonup> string"
  net_log :: "request list"

definition API_URL :: string where
  "API_URL = ''https://api.wordpress.org/plugins/info/1.2/''"

definition PER_PAGE :: int where
  "PER_PAGE = 1000"

definition OUTPUT_DIR :: string where
  "OUTPUT_DIR = ''plugins''"

section \<open>fetch\_plugins\<close>

text \<open>\<^verbatim>\<open>not plugins\<close> is the negation of Python's truth value.\<close>

fun truthy :: "pyval \<Rightarrow> bool" where
  "truthy PyNone = False"
| "truthy (PyBool b) = b"
| "truthy (PyInt n) = (n \<noteq> 0)"
| "truthy (PyStr s) = (s \<noteq> [])"
| "truthy (PyList xs) = (xs \<noteq> [])"
| "truthy (PyDict d) = (d \<noteq> [])"

text \<open>
  \<^verbatim>\<open>all_plugins.extend(plugins)\<close> iterates its argument: the elements of a list, the
  keys of a dict, the characters of a string; other values are not iterable.
\<close>

fun py_iter :: "pyval \<Rightarrow> py_exception + pyval list" where
  "py_iter (PyList xs) = Inr xs"
| "py_iter (PyDict d) = Inr (map (\<lambda>kv. PyStr (fst kv)) d)"
| "py_iter (PyStr s) = Inr (map (\<lambda>c. PyStr [c]) s)"
| "py_iter v = Inl (TypeError ([CHR 0x27] @ type_name v @ [CHR 0x27] @ '' object is not iterable''))"

definition page_request :: "int \<Rightarrow> request" where
  "page_request page =
     \<lparr>url = API_URL,
      params = [(''action'', PyStr ''query_plugins''),
                (''request[per_page]'', PyInt PER_PAGE),
                (''request[page]'', PyInt page)]\<rparr>"

text \<open>
  The \<^verbatim>\<open>while True\<close> loop, with its variables \<^verbatim>\<open>all_plugins\<close> and \<^verbatim>\<open>page\<close>. It need
  not end: the result is \<open>None\<close> when the service never sends an empty page or an error.
  \<open>Some (Inl e, w)\<close> is the exception \<open>e\<close> leaving \<^verbatim>\<open>fetch_plugins\<close>;
  nothing in the loop catches one.
\<close>

partial_function (option) fetch_loop ::
  "env \<Rightarrow> pyval list \<Rightarrow> int \<Rightarrow> world \<Rightarrow> ((py_exception + pyval list) \<times> world) option"
where
  "fetch_loop env all_plugins page w =
     (let rq = page_request page;
          w1 = w\<lparr>net_log := net_log w @ [rq]\<rparr>
      in case http_get env rq of
           Inl e \<Rightarrow> Some (Inl e, w1)
         | Inr resp \<Rightarrow>
             if status_code resp \<noteq> 200 then Some (Inr all_plugins, w1)
             else
               (case json resp of
                  Inl e \<Rightarrow> Some (Inl e, w1)
                | Inr data \<Rightarrow>
                    (case py_get data ''plugins'' (PyList []) of
                       Inl e \<Rightarrow> Some (Inl e, w1)
                     | Inr plugins \<Rightarrow>
                         if \<not> truthy plugins then Some (Inr all_plugins, w1)
                         else
                           (case py_iter plugins of
                              Inl e \<Rightarrow> Some (Inl e, w1)
                            | Inr items \<Rightarrow>
                                fetch_loop env (all_plugins @ items) (page + 1) w1))))"

declare fetch_loop.simps [code]

definition fetch_plugins ::
  "env \<Rightarrow> world \<Rightarrow> ((py_exception + pyval list) \<times> world) option" where
  "fetch_plugins env w = fetch_loop env [] 1 w"

section \<open>download\_plugin\<close>

text \<open>\<^verbatim>\<open>os.path.join(a, b)\<close> on a POSIX system.\<close>

definition path_join :: "string \<Rightarrow> string \<Rightarrow> string" where
  "path_join a b =
     (if b \<noteq> [] \<and> hd b = CHR ''/'' then b
      else if a = [] \<or> last a = CHR ''/'' then a @ b
      else a @ ''/'' @ b)"

definition exists :: "world \<Rightarrow> string \<Rightarrow> bool" where
  "exists w path = (files w path \<noteq> None)"

text \<open>
  The loop \<^verbatim>\<open>for chunk in resp.iter_content(1024 * 64): f.write(chunk)\<close> on the file
  opened at \<open>path\<close>. When the stream breaks, the exception leaves the loop and the
  \<^verbatim>\<open>with\<close> block closes the file with the chunks written so far.
\<close>

fun write_chunks ::
  "chunk_event list \<Rightarrow> string \<Rightarrow> world \<Rightarrow> (py_exception + unit) \<times> world" where
  "write_chunks [] path w = (Inr (), w)"
| "write_chunks (Chunk c # rest) path w =
     write_chunks rest path
       (w\<lparr>files := (files w)(path \<mapsto> (case files w path of None \<Rightarrow> c | Some old \<Rightarrow> old @ c))\<rparr>)"
| "write_chunks (Broken e # rest) path w = (Inl e, w)"

text \<open>The body of the \<^verbatim>\<open>try\<close> block; \<open>Inl\<close> is an exception raised inside it.\<close>

definition try_download ::
  "env \<Rightarrow> string \<Rightarrow> string \<Rightarrow> string \<Rightarrow> world \<Rightarrow> (py_exception + string) \<times> world" where
  "try_download env slug u path w =
     (let rq = \<lparr>url = u, params = []\<rparr>;
          w1 = w\<lparr>net_log := net_log w @ [rq]\<rparr>
      in case http_get env rq of
           Inl e \<Rightarrow> (Inl e, w1)
         | Inr resp \<Rightarrow>
             if status_code resp = 200 then
               (case open_wb env path of
                  Some e \<Rightarrow> (Inl e, w1)
                | None \<Rightarrow>
                    (case write_chunks (iter_content resp) path (w1\<lparr>files := (files w1)(path \<mapsto> [])\<rparr>) of
                       (Inl e, w2) \<Rightarrow> (Inl e, w2)
                     | (Inr _, w2) \<Rightarrow> (Inr (''[OK] '' @ slug), w2)))
             else (Inr (''[FAIL] '' @ slug @ '' (HTTP '' @ str_int (status_code resp) @ '')''), w1))"

definition zip_url :: "string \<Rightarrow> string" where
  "zip_url slug = ''https://downloads.wordpress.org/plugin/'' @ slug @ ''.zip''"

definition zip_path :: "string \<Rightarrow> string" where
  "zip_path slug = path_join OUTPUT_DIR (slug @ ''.zip'')"

text \<open>
  \<^verbatim>\<open>download_plugin(slug)\<close>. The result is the status line it returns, or \<open>Inl e\<close> if an
  exception \<open>e\<close> were to leave it. \<^verbatim>\<open>except Exception as e\<close> catches every exception
  of the \<^verbatim>\<open>try\<close> block.
\<close>

definition download_plugin ::
  "env \<Rightarrow> string \<Rightarrow> world \<Rightarrow> (py_exception + string) \<times> world" where
  "download_plugin env slug w =
     (let u = zip_url slug;
          path = zip_path slug
      in if exists w path then (Inr (''[SKIP] '' @ slug @ '' (already downloaded)''), w)
         else
           (case try_download env slug u path w of
              (Inl e, w') \<Rightarrow> (Inr (''[ERROR] '' @ slug @ '': '' @ message e), w')
            | (Inr line, w') \<Rightarrow> (Inr line, w')))"

section \<open>Notions used to state the properties\<close>

text \<open>
  A plugin record of the specification: a dict whose \<^verbatim>\<open>active_installs\<close>, when the
  key is there, is an integer. \<open>installs\<close> reads it, 0 when the key is absent.
\<close>

fun is_record :: "pyval \<Rightarrow> bool" where
  "is_record (PyDict d) =
     (case map_of d ''active_installs'' of None \<Rightarrow> True | Some (PyInt _) \<Rightarrow> True | Some _ \<Rightarrow> False)"
| "is_record _ = False"

fun installs :: "pyval \<Rightarrow> int" where
  "installs (PyDict d) = (case map_of d ''active_installs'' of Some (PyInt n) \<Rightarrow> n | _ \<Rightarrow> 0)"
| "installs _ = 0"

text \<open>
  The service serves \<open>items\<close> as page number \<open>page\<close>: the request succeeds with
  status 200 and a JSON object whose \<^verbatim>\<open>plugins\<close> member is the list \<open>items\<close>.
\<close>

definition serves_page :: "env \<Rightarrow> int \<Rightarrow> pyval list \<Rightarrow> bool" where
  "serves_page env page items =
     (case http_get env (page_request page) of
        Inl e \<Rightarrow> False
      | Inr resp \<Rightarrow>
          status_code resp = 200 \<and>
          (case json resp of
             Inr (PyDict d) \<Rightarrow> map_of d ''plugins'' = Some (PyList items)
           | _ \<Rightarrow> False))"

text \<open>The request \<^verbatim>\<open>download_plugin\<close> sends for a slug.\<close>

definition zip_request :: "string \<Rightarrow> request" where
  "zip_request slug = \<lparr>url = zip_url slug, params = []\<rparr>"

section \<open>The thread pool of main\<close>

text \<open>
  \<^verbatim>\<open>list(tqdm(executor.map(download_plugin, slugs)))\<close> submits one call of
  \<^verbatim>\<open>download_plugin\<close> per slug to the pool, whose worker threads run the calls at the
  same time, and collects the returned lines in the order of the slugs. To follow the
  threads, a call is cut into the steps at which it reads or changes what the calls
  share: the test \<^verbatim>\<open>os.path.exists(path)\<close>, the request, \<^verbatim>\<open>open(path, "wb")\<close>, and each
  turn of the copy loop. A \<open>task\<close> says where a call stands; \<open>Done\<close> holds the line it
  returned, and an exception of the \<^verbatim>\<open>try\<close> block gives the \<^verbatim>\<open>[ERROR]\<close> line at once.

  What the calls share is the set of files that exist and the log of requests. Several
  slugs may lead to one file (a slug given twice, or \<^verbatim>\<open>alpha\<close> and \<^verbatim>\<open>./alpha\<close>):
  \<open>file_of\<close> says which file a path names. The contents of the files are not followed
  here, since the program never reads them; \<open>write_chunks\<close> above has them for a single
  call.
\<close>

record disk =
  on_disk :: "string set"
  sent :: "request list"

datatype task =
    Start
  | Checked
  | Got response
  | Writing "chunk_event list"
  | Done string

text \<open>One step of the call for \<open>slug\<close>; a call that has returned stays as it is.\<close>

fun task_step ::
  "env \<Rightarrow> (string \<Rightarrow> string) \<Rightarrow> string \<Rightarrow> task \<Rightarrow> disk \<Rightarrow> task \<times> disk" where
  "task_step env file_of slug Start d =
     (if file_of (zip_path slug) \<in> on_disk d
      then (Done (''[SKIP] '' @ slug @ '' (already downloaded)''), d)
      else (Checked, d))"
| "task_step env file_of slug Checked d =
     (let d1 = d\<lparr>sent := sent d @ [zip_request slug]\<rparr>
      in case http_get env (zip_request slug) of
           Inl e \<Rightarrow> (Done (''[ERROR] '' @ slug @ '': '' @ message e), d1)
         | Inr resp \<Rightarrow>
             if status_code resp = 200 then (Got resp, d1)
             else (Done (''[FAIL] '' @ slug @ '' (HTTP '' @ str_int (status_code resp) @ '')''), d1))"
| "task_step env file_of slug (Got resp) d =
     (case open_wb env (zip_path slug) of
        Some e \<Rightarrow> (Done (''[ERROR] '' @ slug @ '': '' @ message e), d)
      | None \<Rightarrow>
          (Writing (iter_content resp),
           d\<lparr>on_disk := insert (file_of (zip_path slug)) (on_disk d)\<rparr>))"
| "task_step env file_of slug (Writing []) d = (Done (''[OK] '' @ slug), d)"
| "task_step env file_of slug (Writing (Chunk c # rest)) d = (Writing rest, d)"
| "task_step env file_of slug (Writing (Broken e # rest)) d =
     (Done (''[ERROR] '' @ slug @ '': '' @ message e), d)"
| "task_step env file_of slug (Done line) d = (Done line, d)"

fun is_Done :: "task \<Rightarrow> bool" where
  "is_Done (Done line) = True"
| "is_Done _ = False"

fun line_of :: "task \<Rightarrow> string" where
  "line_of (Done line) = line"
| "line_of _ = []"

text \<open>
  The pool holds one task per slug, all at \<open>Start\<close> in the beginning. In a step of the
  pool any call that has not returned takes one step; nothing is assumed about which one,
  so every order in which the threads may be scheduled is covered, whatever the number of
  workers. When all tasks are \<open>Done\<close>, their lines in the order of the slugs are the
  list that \<^verbatim>\<open>main\<close> prints.
\<close>

inductive pool_step ::
  "env \<Rightarrow> (string \<Rightarrow> string) \<Rightarrow> string list \<Rightarrow> task list \<times> disk \<Rightarrow> task list \<times> disk \<Rightarrow> bool"
  for env file_of slugs where
  step: "i < length ts \<Longrightarrow> i < length slugs \<Longrightarrow> \<not> is_Done (ts ! i) \<Longrightarrow>
         task_step env file_of (slugs ! i) (ts ! i) d = (t', d') \<Longrightarrow>
         pool_step env file_of slugs (ts, d) (ts[i := t'], d')"

text \<open>
  \<open>run_schedule\<close> takes the steps in the order of a given list of positions; positions
  out of range are passed over.
\<close>

fun run_schedule ::
  "env \<Rightarrow> (string \<Rightarrow> string) \<Rightarrow> string list \<Rightarrow> nat list \<Rightarrow> task list \<times> disk \<Rightarrow> task list \<times> disk" where
  "run_schedule env file_of slugs [] s = s"
| "run_schedule env file_of slugs (i # sched) (ts, d) =
     (if i < length ts \<and> i < length slugs
      then (case task_step env file_of (slugs ! i) (ts ! i) d of
              (t', d') \<Rightarrow> run_schedule env file_of slugs sched (ts[i := t'], d'))
      else run_schedule env file_of slugs sched (ts, d))"

section \<open>Notions used to state the properties of the pool\<close>

text \<open>
  \<open>has_sent\<close>: the call has sent its request. \<open>has_opened\<close>: it has opened its file
  for writing, which for a call that has returned means that it did not skip, the
  request was answered with status 200 and \<open>open\<close> did not raise. \<open>drop_nth k\<close> takes
  the element at position \<open>k\<close> out of a list.
\<close>

fun has_sent :: "string \<Rightarrow> task \<Rightarrow> bool" where
  "has_sent slug Start = False"
| "has_sent slug Checked = False"
| "has_sent slug (Got resp) = True"
| "has_sent slug (Writing cs) = True"
| "has_sent slug (Done line) = (line \<noteq> ''[SKIP] '' @ slug @ '' (already downloaded)'')"

definition can_open :: "env \<Rightarrow> string \<Rightarrow> bool" where
  "can_open env slug =
     ((case http_get env (zip_request slug) of
         Inl e \<Rightarrow> False
       | Inr resp \<Rightarrow> status_code resp = 200) \<and>
      open_wb env (zip_path slug) = None)"

fun has_opened :: "env \<Rightarrow> string \<Rightarrow> task \<Rightarrow> bool" where
  "has_opened env slug (Writing cs) = True"
| "has_opened env slug (Done line) =
     (line \<noteq> ''[SKIP] '' @ slug @ '' (already downloaded)'' \<and> can_open env slug)"
| "has_opened env slug _ = False"

definition drop_nth :: "nat \<Rightarrow> 'a list \<Rightarrow> 'a list" where
  "drop_nth k xs = take k xs @ drop (Suc k) xs"

text \<open>An upper bound on the steps a call has left, and their sum over the pool.\<close>

definition body_length :: "env \<Rightarrow> string \<Rightarrow> nat" where
  "body_length env slug =
     (case http_get env (zip_request slug) of
        Inl e \<Rightarrow> 0
      | Inr resp \<Rightarrow> length (iter_content resp))"

fun steps_left :: "env \<Rightarrow> string \<Rightarrow> task \<Rightarrow> nat" where
  "steps_left env slug Start = body_length env slug + 4"
| "steps_left env slug Checked = body_length env slug + 3"
| "steps_left env slug (Got resp) = length (iter_content resp) + 2"
| "steps_left env slug (Writing cs) = length cs + 1"
| "steps_left env slug (Done line) = 0"

definition pool_steps_left :: "env \<Rightarrow> string list \<Rightarrow> task list \<times> disk \<Rightarrow> nat" where
  "pool_steps_left env slugs s =
     sum_list (map (\<lambda>(slug, t). steps_left env slug t) (zip slugs (fst s)))"

text \<open>
  What holds of a task at any moment of a run, and of the pool as a whole: a call that is
  past the request holds the answer of the service, a call that writes has written the
  chunks before the ones it has left, and the line of a call that has returned is the
  skip line, with the file on disk, or the line that \<^verbatim>\<open>download_plugin\<close> returns for
  the slug when the file is not there.
\<close>

fun on_track :: "env \<Rightarrow> (string \<Rightarrow> string) \<Rightarrow> string \<Rightarrow> disk \<Rightarrow> task \<Rightarrow> bool" where
  "on_track env file_of slug d Start = True"
| "on_track env file_of slug d Checked = True"
| "on_track env file_of slug d (Got resp) =
     (http_get env (zip_request slug) = Inr resp \<and> status_code resp = 200)"
| "on_track env file_of slug d (Writing cs) =
     (\<exists>resp before. http_get env (zip_request slug) = Inr resp \<and> status_code resp = 200 \<and>
        open_wb env (zip_path slug) = None \<and> iter_content resp = map Chunk before @ cs)"
| "on_track env file_of slug d (Done line) =
     (line = ''[SKIP] '' @ slug @ '' (already downloaded)'' \<and> file_of (zip_path slug) \<in> on_disk d \<or>
      line \<noteq> ''[SKIP] '' @ slug @ '' (already downloaded)'' \<and>
      (\<forall>w. \<not> exists w (zip_path slug) \<longrightarrow> fst (download_plugin env slug w) = Inr line))"

definition pool_inv ::
  "env \<Rightarrow> (string \<Rightarrow> string) \<Rightarrow> string list \<Rightarrow> disk \<Rightarrow> task list \<times> disk \<Rightarrow> bool" where
  "pool_inv env file_of slugs d0 s =
     (length (fst s) = length slugs \<and>
      (\<forall>i<length slugs. on_track env file_of (slugs ! i) (snd s) (fst s ! i)) \<and>
      (\<forall>r. count_list (sent (snd s)) r =
             count_list (sent d0) r +
             length (filter (\<lambda>(slug, t). has_sent slug t \<and> zip_request slug = r) (zip slugs (fst s)))) \<and>
      (\<forall>f. f \<in> on_disk (snd s) \<longleftrightarrow>
             f \<in> on_disk d0 \<or>
             (\<exists>i<length slugs. has_opened env (slugs ! i) (fst s ! i) \<and>
                                f = file_of (zip_path (slugs ! i)))))"

section \<open>A concrete service and disk\<close>

text \<open>
  A small service for the examples: three listing pages (the third is the argument
  \<open>third\<close>), the archive of \<open>alpha\<close> (complete), of \<open>beta\<close> (HTTP 500) and of
  \<open>gamma\<close> (the connection breaks after the first chunk); every other request fails
  to resolve the host. Every file can be opened for writing.
\<close>

definition demo_env :: "py_exception + response \<Rightarrow> env" where
  "demo_env third =
     \<lparr>http_get = (\<lambda>rq.
        if rq = page_request 1 then
          Inr \<lparr>status_code = 200,
               json = Inr (PyDict [(''plugins'',
                        PyList [PyDict [(''slug'', PyStr ''alpha''), (''active_installs'', PyInt 40)],
                                PyDict [(''slug'', PyStr ''beta'')]])]),
               iter_content = []\<rparr>
        else if rq = page_request 2 then
          Inr \<lparr>status_code = 200,
               json = Inr (PyDict [(''plugins'',
                        PyList [PyDict [(''slug'', PyStr ''gamma''), (''active_installs'', PyInt 900)]])]),
               iter_content = []\<rparr>
        else if rq = page_request 3 then third
        else if rq = zip_request ''alpha'' then
          Inr \<lparr>status_code = 200, json = Inl (ValueError ''Expecting value''),
               iter_content = [Chunk ''PK'', Chunk ''zip'']\<rparr>
        else if rq = zip_request ''beta'' then
          Inr \<lparr>status_code = 500, json = Inl (ValueError ''Expecting value''),
               iter_content = []\<rparr>
        else if rq = zip_request ''gamma'' then
          Inr \<lparr>status_code = 200, json = Inl (ValueError ''Expecting value''),
               iter_content = [Chunk ''PK'', Broken (RequestException ''Connection broken'')]\<rparr>
        else Inl (RequestException ''Name or service not known'')),
      open_wb = (\<lambda>path. None)\<rparr>"

definition empty_page :: "py_exception + response" where
  "empty_page =
     Inr \<lparr>status_code = 200, json = Inr (PyDict [(''plugins'', PyList [])]), iter_content = []\<rparr>"

definition empty_world :: world where
  "empty_world = \<lparr>files = Map.empty, net_log = []\<rparr>"

definition empty_disk :: disk where
  "empty_disk = \<lparr>on_disk = {}, sent = []\<rparr>"

definition page_503 :: "py_exception + response" where
  "page_503 =
     Inr \<lparr>status_code = 503, json = Inl (ValueError ''Expecting value''), iter_content = []\<rparr>"

definition page_timeout :: "py_exception + response" where
  "page_timeout = Inl (RequestException ''Read timed out'')"

section \<open>Properties of filter\_plugins\<close>

lemma in_range_record:
  "is_record p \<Longrightarrow>
   in_range p lo hi = Inr (lo \<le> installs p \<and> installs p \<le> hi)"
  by (cases p) (auto simp: in_range_def split: option.splits pyval.splits)

lemma filter_plugins_records:
  "list_all is_record plugins \<Longrightarrow>
   filter_plugins plugins lo hi =
     Inr (filter (\<lambda>p. lo \<le> installs p \<and> installs p \<le> hi) plugins)"
  by (induction plugins) (simp_all add: in_range_record)


text \<open>
  C4. On plugin records (dicts whose \<^verbatim>\<open>active_installs\<close> is an integer or absent),
  \<^verbatim>\<open>filter_plugins\<close> raises nothing and returns exactly the records whose install
  count, 0 when absent, lies in the closed range, in their original order; when the lower
  bound exceeds the upper bound the result is the empty list.
\<close>

theorem filter_plugins_selects:
  assumes "list_all is_record plugins"
  shows "filter_plugins plugins lo hi =
           Inr (filter (\<lambda>p. lo \<le> installs p \<and> installs p \<le> hi) plugins) \<and>
         (hi < lo \<longrightarrow> filter_plugins plugins lo hi = Inr [])"
proof -
  have sel: "filter_plugins plugins lo hi =
               Inr (filter (\<lambda>p. lo \<le> installs p \<and> installs p \<le> hi) plugins)"
    using assms by (rule filter_plugins_records)
  have "filter (\<lambda>p. lo \<le> installs p \<and> installs p \<le> hi) plugins = []" if "hi < lo"
    using that by (induction plugins) auto
  with sel show ?thesis by simp
qed

theorem filter_plugins_selects_witness:
  "list_all is_record
     [PyDict [(''slug'', PyStr ''a'')],
      PyDict [(''slug'', PyStr ''b''), (''active_installs'', PyInt 7)],
      PyDict [(''slug'', PyStr ''c''), (''active_installs'', PyInt 70)],
      PyDict [(''slug'', PyStr ''d''), (''active_installs'', PyInt 3)]] \<and>
   filter_plugins
     [PyDict [(''slug'', PyStr ''a'')],
      PyDict [(''slug'', PyStr ''b''), (''active_installs'', PyInt 7)],
      PyDict [(''slug'', PyStr ''c''), (''active_installs'', PyInt 70)],
      PyDict [(''slug'', PyStr ''d''), (''active_installs'', PyInt 3)]] 1 10 =
     Inr [PyDict [(''slug'', PyStr ''b''), (''active_installs'', PyInt 7)],
          PyDict [(''slug'', PyStr ''d''), (''active_installs'', PyInt 3)]] \<and>
   filter_plugins
     [PyDict [(''slug'', PyStr ''a'')],
      PyDict [(''slug'', PyStr ''b''), (''active_installs'', PyInt 7)],
      PyDict [(''slug'', PyStr ''c''), (''active_installs'', PyInt 70)],
      PyDict [(''slug'', PyStr ''d''), (''active_installs'', PyInt 3)]] 5 2 = Inr []"
proof -
  let ?ps = "[PyDict [(''slug'', PyStr ''a'')],
      PyDict [(''slug'', PyStr ''b''), (''active_installs'', PyInt 7)],
      PyDict [(''slug'', PyStr ''c''), (''active_installs'', PyInt 70)],
      PyDict [(''slug'', PyStr ''d''), (''active_installs'', PyInt 3)]]"
  have r: "list_all is_record ?ps" by simp
  show ?thesis
    using r filter_plugins_selects [OF r, of 1 10] filter_plugins_selects [OF r, of 5 2]
    by simp
qed

section \<open>Properties of download\_plugin\<close>

lemma write_chunks_exists:
  "files w path \<noteq> None \<Longrightarrow> files (snd (write_chunks cs path w)) path \<noteq> None"
  by (induction cs path w rule: write_chunks.induct) simp_all

lemma write_chunks_broken:
  "files w path = Some old \<Longrightarrow>
   write_chunks (map Chunk cs @ Broken e # rest) path w =
     (Inl e, w\<lparr>files := (files w)(path \<mapsto> old @ concat cs)\<rparr>)"
proof (induction cs arbitrary: w old)
  case Nil
  then show ?case by (simp add: fun_upd_idem)
next
  case (Cons c cs)
  let ?w = "w\<lparr>files := (files w)(path \<mapsto> old @ c)\<rparr>"
  have "files ?w path = Some (old @ c)" by simp
  from Cons.IH [OF this] show ?case using Cons.prems by (simp add: fun_eq_iff)
qed

lemma write_chunks_complete:
  "files w path = Some old \<Longrightarrow>
   write_chunks (map Chunk cs) path w =
     (Inr (), w\<lparr>files := (files w)(path \<mapsto> old @ concat cs)\<rparr>)"
proof (induction cs arbitrary: w old)
  case Nil
  then show ?case by (simp add: fun_upd_idem)
next
  case (Cons c cs)
  let ?w = "w\<lparr>files := (files w)(path \<mapsto> old @ c)\<rparr>"
  have "files ?w path = Some (old @ c)" by simp
  from Cons.IH [OF this] show ?case using Cons.prems by (simp add: fun_eq_iff)
qed

lemma download_plugin_skip:
  "exists w (zip_path slug) \<Longrightarrow>
   download_plugin env slug w = (Inr (''[SKIP] '' @ slug @ '' (already downloaded)''), w)"
  by (simp add: download_plugin_def)

lemma download_plugin_skip_again:
  assumes "exists w (zip_path slug)"
  shows "((\<lambda>v. snd (download_plugin env slug v)) ^^ n) w = w"
  by (induction n) (simp_all add: download_plugin_skip [OF assms])

lemma download_plugin_returns:
  "\<exists>line. fst (download_plugin env slug w) = Inr line"
  by (auto simp: download_plugin_def Let_def split: prod.splits sum.splits)

lemma download_plugin_transport:
  "\<not> exists w (zip_path slug) \<Longrightarrow> http_get env (zip_request slug) = Inl e \<Longrightarrow>
   download_plugin env slug w =
     (Inr (''[ERROR] '' @ slug @ '': '' @ message e), w\<lparr>net_log := net_log w @ [zip_request slug]\<rparr>)"
  by (simp add: download_plugin_def try_download_def zip_request_def)

lemma download_plugin_http_failure:
  "\<not> exists w (zip_path slug) \<Longrightarrow> http_get env (zip_request slug) = Inr resp \<Longrightarrow>
   status_code resp \<noteq> 200 \<Longrightarrow>
   download_plugin env slug w =
     (Inr (''[FAIL] '' @ slug @ '' (HTTP '' @ str_int (status_code resp) @ '')''),
      w\<lparr>net_log := net_log w @ [zip_request slug]\<rparr>)"
  by (simp add: download_plugin_def try_download_def zip_request_def)

lemma download_plugin_open_error:
  "\<not> exists w (zip_path slug) \<Longrightarrow> http_get env (zip_request slug) = Inr resp \<Longrightarrow>
   status_code resp = 200 \<Longrightarrow> open_wb env (zip_path slug) = Some e \<Longrightarrow>
   download_plugin env slug w =
     (Inr (''[ERROR] '' @ slug @ '': '' @ message e), w\<lparr>net_log := net_log w @ [zip_request slug]\<rparr>)"
  by (simp add: download_plugin_def try_download_def zip_request_def)

lemma download_plugin_broken:
  "\<not> exists w (zip_path slug) \<Longrightarrow> http_get env (zip_request slug) = Inr resp \<Longrightarrow>
   status_code resp = 200 \<Longrightarrow> open_wb env (zip_path slug) = None \<Longrightarrow>
   iter_content resp = map Chunk cs @ Broken e # rest \<Longrightarrow>
   download_plugin env slug w =
     (Inr (''[ERROR] '' @ slug @ '': '' @ message e),
      w\<lparr>net_log := net_log w @ [zip_request slug],
        files := (files w)(zip_path slug \<mapsto> concat cs)\<rparr>)"
  by (simp add: download_plugin_def try_download_def zip_request_def write_chunks_broken)

lemma download_plugin_ok:
  "\<not> exists w (zip_path slug) \<Longrightarrow> http_get env (zip_request slug) = Inr resp \<Longrightarrow>
   status_code resp = 200 \<Longrightarrow> open_wb env (zip_path slug) = None \<Longrightarrow>
   iter_content resp = map Chunk cs \<Longrightarrow>
   download_plugin env slug w =
     (Inr (''[OK] '' @ slug),
      w\<lparr>net_log := net_log w @ [zip_request slug],
        files := (files w)(zip_path slug \<mapsto> concat cs)\<rparr>)"
  by (simp add: download_plugin_def try_download_def zip_request_def write_chunks_complete)

lemma download_plugin_streamed:
  assumes "\<not> exists w (zip_path slug)"
      and "http_get env (zip_request slug) = Inr resp"
      and "status_code resp = 200"
      and "open_wb env (zip_path slug) = None"
  shows "download_plugin env slug w =
           (case write_chunks (iter_content resp) (zip_path slug)
                   (w\<lparr>net_log := net_log w @ [zip_request slug],
                      files := (files w)(zip_path slug \<mapsto> [])\<rparr>) of
              (Inl e, w') \<Rightarrow> (Inr (''[ERROR] '' @ slug @ '': '' @ message e), w')
            | (Inr u, w') \<Rightarrow> (Inr (''[OK] '' @ slug), w'))"
  using assms
  by (simp add: download_plugin_def try_download_def zip_request_def Let_def
           split: prod.splits sum.splits)

lemma download_plugin_ok_exists:
  assumes "fst (download_plugin env slug w) = Inr (''[OK] '' @ slug)"
  shows "exists (snd (download_plugin env slug w)) (zip_path slug)"
proof (cases "exists w (zip_path slug)")
  case True
  then show ?thesis by (simp add: download_plugin_skip)
next
  case False
  show ?thesis
  proof (cases "http_get env (zip_request slug)")
    case (Inl e)
    with False assms show ?thesis by (simp add: download_plugin_transport)
  next
    case (Inr resp)
    show ?thesis
    proof (cases "status_code resp = 200")
      case ok: True
      show ?thesis
      proof (cases "open_wb env (zip_path slug)")
        case None
        let ?w1 = "w\<lparr>net_log := net_log w @ [zip_request slug], files := (files w)(zip_path slug \<mapsto> [])\<rparr>"
        have "files ?w1 (zip_path slug) \<noteq> None" by simp
        then have "files (snd (write_chunks (iter_content resp) (zip_path slug) ?w1)) (zip_path slug) \<noteq> None"
          by (rule write_chunks_exists)
        then show ?thesis
          unfolding download_plugin_streamed [OF False Inr ok None] exists_def
          by (auto split: prod.splits sum.splits)
      next
        case (Some e)
        with False Inr ok assms show ?thesis by (simp add: download_plugin_open_error)
      qed
    next
      case False
      with \<open>\<not> exists w (zip_path slug)\<close> Inr assms show ?thesis
        by (simp add: download_plugin_http_failure)
    qed
  qed
qed

text \<open>The concrete service at work.\<close>

lemma demo_alpha: "http_get (demo_env t) (zip_request ''alpha'') = Inr \<lparr>status_code = 200, json = Inl (ValueError ''Expecting value''),
               iter_content = [Chunk ''PK'', Chunk ''zip'']\<rparr>"
  by (simp add: demo_env_def zip_request_def page_request_def zip_url_def API_URL_def)

lemma demo_beta: "http_get (demo_env t) (zip_request ''beta'') = Inr \<lparr>status_code = 500, json = Inl (ValueError ''Expecting value''),
               iter_content = []\<rparr>"
  by (simp add: demo_env_def zip_request_def page_request_def zip_url_def API_URL_def)

lemma demo_gamma: "http_get (demo_env t) (zip_request ''gamma'') = Inr \<lparr>status_code = 200, json = Inl (ValueError ''Expecting value''),
               iter_content = [Chunk ''PK'', Broken (RequestException ''Connection broken'')]\<rparr>"
  by (simp add: demo_env_def zip_request_def page_request_def zip_url_def API_URL_def)

lemma demo_delta: "http_get (demo_env t) (zip_request ''delta'') = Inl (RequestException ''Name or service not known'')"
  by (simp add: demo_env_def zip_request_def page_request_def zip_url_def API_URL_def)

lemma demo_open: "open_wb (demo_env t) p = None"
  by (simp add: demo_env_def)

lemma empty_world_exists: "\<not> exists empty_world p"
  by (simp add: exists_def empty_world_def)

lemma str_int_500: "str_int 500 = ''500''"
  by (simp add: str_int_def str_nat.simps)

lemma demo_alpha_ok:
  "download_plugin (demo_env t) ''alpha'' empty_world =
     (Inr ''[OK] alpha'',
      empty_world\<lparr>net_log := net_log empty_world @ [zip_request ''alpha''],
                  files := (files empty_world)(zip_path ''alpha'' \<mapsto> ''PKzip'')\<rparr>)"
  using download_plugin_ok [where cs = "[''PK'', ''zip'']", OF empty_world_exists demo_alpha _ demo_open]
  by simp

text \<open>
  C1. \<^verbatim>\<open>download_plugin\<close> always returns a status line and lets no exception out: every
  exception raised inside its \<^verbatim>\<open>try\<close> block becomes the line \<^verbatim>\<open>[ERROR] slug: message\<close>
  (the outcome FailedTransport of the specification). In particular this holds when
  \<^verbatim>\<open>requests.get\<close> raises (timeout, connection error, DNS failure) and when the body
  stream breaks after some chunks.
\<close>

theorem download_plugin_never_raises:
  "(\<exists>line. fst (download_plugin env slug w) = Inr line) \<and>
   (\<not> exists w (zip_path slug) \<longrightarrow>
    fst (try_download env slug (zip_url slug) (zip_path slug) w) = Inl e \<longrightarrow>
      fst (download_plugin env slug w) = Inr (''[ERROR] '' @ slug @ '': '' @ message e)) \<and>
   (\<not> exists w (zip_path slug) \<longrightarrow> http_get env (zip_request slug) = Inl e \<longrightarrow>
      fst (download_plugin env slug w) = Inr (''[ERROR] '' @ slug @ '': '' @ message e)) \<and>
   (\<not> exists w (zip_path slug) \<longrightarrow> http_get env (zip_request slug) = Inr resp \<longrightarrow>
    status_code resp = 200 \<longrightarrow> open_wb env (zip_path slug) = None \<longrightarrow>
    iter_content resp = map Chunk cs @ Broken e # rest \<longrightarrow>
      fst (download_plugin env slug w) = Inr (''[ERROR] '' @ slug @ '': '' @ message e))"
proof (intro conjI impI)
  show "\<exists>line. fst (download_plugin env slug w) = Inr line"
    by (rule download_plugin_returns)
next
  assume "\<not> exists w (zip_path slug)"
    and "fst (try_download env slug (zip_url slug) (zip_path slug) w) = Inl e"
  then show "fst (download_plugin env slug w) = Inr (''[ERROR] '' @ slug @ '': '' @ message e)"
    by (cases "try_download env slug (zip_url slug) (zip_path slug) w")
       (simp add: download_plugin_def)
next
  assume "\<not> exists w (zip_path slug)" and "http_get env (zip_request slug) = Inl e"
  then show "fst (download_plugin env slug w) = Inr (''[ERROR] '' @ slug @ '': '' @ message e)"
    by (simp add: download_plugin_transport)
next
  assume "\<not> exists w (zip_path slug)" and "http_get env (zip_request slug) = Inr resp"
    and "status_code resp = 200" and "open_wb env (zip_path slug) = None"
    and "iter_content resp = map Chunk cs @ Broken e # rest"
  then show "fst (download_plugin env slug w) = Inr (''[ERROR] '' @ slug @ '': '' @ message e)"
    by (simp add: download_plugin_broken)
qed

theorem download_plugin_never_raises_witness:
  "\<not> exists empty_world (zip_path ''delta'') \<and>
   http_get (demo_env empty_page) (zip_request ''delta'') =
     Inl (RequestException ''Name or service not known'') \<and>
   fst (try_download (demo_env empty_page) ''delta'' (zip_url ''delta'') (zip_path ''delta'') empty_world) =
     Inl (RequestException ''Name or service not known'') \<and>
   fst (download_plugin (demo_env empty_page) ''delta'' empty_world) =
     Inr ''[ERROR] delta: Name or service not known'' \<and>
   \<not> exists empty_world (zip_path ''gamma'') \<and>
   http_get (demo_env empty_page) (zip_request ''gamma'') =
     Inr \<lparr>status_code = 200, json = Inl (ValueError ''Expecting value''),
          iter_content = [Chunk ''PK'', Broken (RequestException ''Connection broken'')]\<rparr> \<and>
   open_wb (demo_env empty_page) (zip_path ''gamma'') = None \<and>
   fst (download_plugin (demo_env empty_page) ''gamma'' empty_world) =
     Inr ''[ERROR] gamma: Connection broken''"
proof -
  let ?resp = "\<lparr>status_code = 200, json = Inl (ValueError ''Expecting value''),
          iter_content = [Chunk ''PK'', Broken (RequestException ''Connection broken'')]\<rparr>"
  have d1: "\<not> exists empty_world (zip_path ''delta'')" by (rule empty_world_exists)
  have d2: "http_get (demo_env empty_page) (zip_request ''delta'') =
              Inl (RequestException ''Name or service not known'')" by (rule demo_delta)
  have d3: "fst (try_download (demo_env empty_page) ''delta'' (zip_url ''delta'') (zip_path ''delta'') empty_world) =
              Inl (RequestException ''Name or service not known'')"
    using d2 by (simp add: try_download_def zip_request_def)
  have g1: "\<not> exists empty_world (zip_path ''gamma'')" by (rule empty_world_exists)
  have g2: "http_get (demo_env empty_page) (zip_request ''gamma'') = Inr ?resp" by (rule demo_gamma)
  have g3: "status_code ?resp = 200" by simp
  have g4: "open_wb (demo_env empty_page) (zip_path ''gamma'') = None" by (rule demo_open)
  have g5: "iter_content ?resp = map Chunk [''PK''] @ Broken (RequestException ''Connection broken'') # []"
    by simp
  show ?thesis
    using d1 d2 d3 g1 g2 g4
      download_plugin_never_raises
        [of "demo_env empty_page" "''delta''" empty_world "RequestException ''Name or service not known''"]
      download_plugin_never_raises
        [of "demo_env empty_page" "''gamma''" empty_world "RequestException ''Connection broken''"
            ?resp "[''PK'']" "[]"]
    by simp
qed

text \<open>
  C5. When the destination file exists, \<^verbatim>\<open>download_plugin\<close> returns the line
  \<^verbatim>\<open>[SKIP] slug (already downloaded)\<close> and leaves the state as it is: no request is
  logged and no file changes. A call that returns \<^verbatim>\<open>[OK] slug\<close> has created the file;
  and once the file exists after a call, any number of further calls, whatever the
  service would answer, return the skip line and leave the state unchanged.
\<close>

theorem download_plugin_skips_existing:
  "(exists w (zip_path slug) \<longrightarrow>
      download_plugin env slug w = (Inr (''[SKIP] '' @ slug @ '' (already downloaded)''), w)) \<and>
   (fst (download_plugin env slug w) = Inr (''[OK] '' @ slug) \<longrightarrow>
      exists (snd (download_plugin env slug w)) (zip_path slug)) \<and>
   (exists (snd (download_plugin env slug w)) (zip_path slug) \<longrightarrow>
      (\<forall>env' n. ((\<lambda>v. snd (download_plugin env' slug v)) ^^ n) (snd (download_plugin env slug w)) =
                   snd (download_plugin env slug w) \<and>
                download_plugin env' slug
                    (((\<lambda>v. snd (download_plugin env' slug v)) ^^ n) (snd (download_plugin env slug w))) =
                  (Inr (''[SKIP] '' @ slug @ '' (already downloaded)''), snd (download_plugin env slug w))))"
proof (intro conjI impI allI)
  assume "exists w (zip_path slug)"
  then show "download_plugin env slug w = (Inr (''[SKIP] '' @ slug @ '' (already downloaded)''), w)"
    by (rule download_plugin_skip)
next
  assume "fst (download_plugin env slug w) = Inr (''[OK] '' @ slug)"
  then show "exists (snd (download_plugin env slug w)) (zip_path slug)"
    by (rule download_plugin_ok_exists)
next
  fix env' n
  let ?w = "snd (download_plugin env slug w)"
  assume ex: "exists ?w (zip_path slug)"
  show same: "((\<lambda>v. snd (download_plugin env' slug v)) ^^ n) ?w = ?w"
    using ex by (rule download_plugin_skip_again)
  show "download_plugin env' slug (((\<lambda>v. snd (download_plugin env' slug v)) ^^ n) ?w) =
          (Inr (''[SKIP] '' @ slug @ '' (already downloaded)''), ?w)"
    unfolding same by (rule download_plugin_skip [OF ex])
qed

theorem download_plugin_skips_existing_witness:
  "fst (download_plugin (demo_env empty_page) ''alpha'' empty_world) = Inr ''[OK] alpha'' \<and>
   exists (snd (download_plugin (demo_env empty_page) ''alpha'' empty_world)) (zip_path ''alpha'') \<and>
   download_plugin (demo_env empty_page) ''alpha''
       (((\<lambda>v. snd (download_plugin (demo_env empty_page) ''alpha'' v)) ^^ 2)
          (snd (download_plugin (demo_env empty_page) ''alpha'' empty_world))) =
     (Inr ''[SKIP] alpha (already downloaded)'',
      snd (download_plugin (demo_env empty_page) ''alpha'' empty_world)) \<and>
   exists \<lparr>files = [zip_path ''alpha'' \<mapsto> ''PK''], net_log = []\<rparr> (zip_path ''alpha'') \<and>
   download_plugin (demo_env empty_page) ''alpha''
       \<lparr>files = [zip_path ''alpha'' \<mapsto> ''PK''], net_log = []\<rparr> =
     (Inr ''[SKIP] alpha (already downloaded)'',
      \<lparr>files = [zip_path ''alpha'' \<mapsto> ''PK''], net_log = []\<rparr>)"
proof -
  let ?D = "demo_env empty_page"
  let ?w1 = "snd (download_plugin ?D ''alpha'' empty_world)"
  let ?w2 = "\<lparr>files = [zip_path ''alpha'' \<mapsto> ''PK''], net_log = []\<rparr>"
  note first = download_plugin_skips_existing [of empty_world "''alpha''" ?D]
  note again = download_plugin_skips_existing [of ?w2 "''alpha''" ?D]
  have ok: "fst (download_plugin ?D ''alpha'' empty_world) = Inr (''[OK] '' @ ''alpha'')"
    by (simp add: demo_alpha_ok)
  with first have ex1: "exists ?w1 (zip_path ''alpha'')"
    by blast
  with first have "\<forall>env' n. download_plugin env' ''alpha''
         (((\<lambda>v. snd (download_plugin env' ''alpha'' v)) ^^ n) ?w1) =
       (Inr (''[SKIP] '' @ ''alpha'' @ '' (already downloaded)''), ?w1)"
    by blast
  then have rerun: "download_plugin ?D ''alpha''
         (((\<lambda>v. snd (download_plugin ?D ''alpha'' v)) ^^ 2) ?w1) =
       (Inr (''[SKIP] '' @ ''alpha'' @ '' (already downloaded)''), ?w1)"
    by blast
  have ex2: "exists ?w2 (zip_path ''alpha'')"
    by (simp add: exists_def)
  with again have skip: "download_plugin ?D ''alpha'' ?w2 =
      (Inr (''[SKIP] '' @ ''alpha'' @ '' (already downloaded)''), ?w2)"
    by blast
  from ok ex1 rerun ex2 skip show ?thesis by simp
qed

text \<open>
  C6. When the destination file does not exist and the download request is answered with
  a status other than 200, \<^verbatim>\<open>download_plugin\<close> returns \<^verbatim>\<open>[FAIL] slug (HTTP status)\<close>
  and the files are unchanged; in particular there is still no file at the destination.
\<close>

theorem download_plugin_http_failure_no_file:
  assumes "\<not> exists w (zip_path slug)"
      and "http_get env (zip_request slug) = Inr resp"
      and "status_code resp \<noteq> 200"
  shows "fst (download_plugin env slug w) =
           Inr (''[FAIL] '' @ slug @ '' (HTTP '' @ str_int (status_code resp) @ '')'') \<and>
         files (snd (download_plugin env slug w)) = files w \<and>
         \<not> exists (snd (download_plugin env slug w)) (zip_path slug)"
  using assms by (simp add: download_plugin_http_failure exists_def)

theorem download_plugin_http_failure_no_file_witness:
  "\<not> exists empty_world (zip_path ''beta'') \<and>
   (\<exists>resp. http_get (demo_env empty_page) (zip_request ''beta'') = Inr resp \<and> status_code resp = 500) \<and>
   fst (download_plugin (demo_env empty_page) ''beta'' empty_world) = Inr ''[FAIL] beta (HTTP 500)'' \<and>
   files (snd (download_plugin (demo_env empty_page) ''beta'' empty_world)) = Map.empty"
proof -
  let ?resp = "\<lparr>status_code = 500, json = Inl (ValueError ''Expecting value''), iter_content = []\<rparr>"
  have h1: "\<not> exists empty_world (zip_path ''beta'')" by (rule empty_world_exists)
  have h2: "http_get (demo_env empty_page) (zip_request ''beta'') = Inr ?resp" by (rule demo_beta)
  have h3: "status_code ?resp \<noteq> 200" by simp
  show ?thesis
    using download_plugin_http_failure_no_file [OF h1 h2 h3] h1 h2
    by (simp add: str_int_500 empty_world_def)
qed

text \<open>
  C9. When the request is answered with status 200 and the file is opened, but the body
  stream breaks after the chunks \<open>cs\<close>, \<^verbatim>\<open>download_plugin\<close> returns the \<^verbatim>\<open>[ERROR]\<close>
  line and yet a file holding just those chunks is at the destination; after any number
  of later calls for the slug the next one still returns the skip line and the state is
  the same, so the truncated file is never downloaded again. The witness is such an
  execution.
\<close>

theorem download_plugin_broken_stream_leaves_file:
  assumes "\<not> exists w (zip_path slug)"
      and "http_get env (zip_request slug) = Inr resp"
      and "status_code resp = 200"
      and "open_wb env (zip_path slug) = None"
      and "iter_content resp = map Chunk cs @ Broken e # rest"
  shows "fst (download_plugin env slug w) = Inr (''[ERROR] '' @ slug @ '': '' @ message e) \<and>
         files (snd (download_plugin env slug w)) (zip_path slug) = Some (concat cs) \<and>
         download_plugin env' slug
             (((\<lambda>v. snd (download_plugin env' slug v)) ^^ n) (snd (download_plugin env slug w))) =
           (Inr (''[SKIP] '' @ slug @ '' (already downloaded)''), snd (download_plugin env slug w))"
proof -
  let ?w = "snd (download_plugin env slug w)"
  have r: "download_plugin env slug w =
     (Inr (''[ERROR] '' @ slug @ '': '' @ message e),
      w\<lparr>net_log := net_log w @ [zip_request slug],
        files := (files w)(zip_path slug \<mapsto> concat cs)\<rparr>)"
    using assms by (rule download_plugin_broken)
  then have ex: "exists ?w (zip_path slug)" by (simp add: exists_def)
  then have "download_plugin env' slug (((\<lambda>v. snd (download_plugin env' slug v)) ^^ n) ?w) =
      (Inr (''[SKIP] '' @ slug @ '' (already downloaded)''), ?w)"
    by (simp add: download_plugin_skip_again download_plugin_skip)
  with r show ?thesis by simp
qed

theorem download_plugin_broken_stream_leaves_file_witness:
  "\<not> exists empty_world (zip_path ''gamma'') \<and>
   http_get (demo_env empty_page) (zip_request ''gamma'') =
     Inr \<lparr>status_code = 200, json = Inl (ValueError ''Expecting value''),
          iter_content = [Chunk ''PK'', Broken (RequestException ''Connection broken'')]\<rparr> \<and>
   open_wb (demo_env empty_page) (zip_path ''gamma'') = None \<and>
   fst (download_plugin (demo_env empty_page) ''gamma'' empty_world) =
     Inr ''[ERROR] gamma: Connection broken'' \<and>
   files (snd (download_plugin (demo_env empty_page) ''gamma'' empty_world)) (zip_path ''gamma'') =
     Some ''PK'' \<and>
   download_plugin (demo_env empty_page) ''gamma''
       (((\<lambda>v. snd (download_plugin (demo_env empty_page) ''gamma'' v)) ^^ 2)
          (snd (download_plugin (demo_env empty_page) ''gamma'' empty_world))) =
     (Inr ''[SKIP] gamma (already downloaded)'',
      snd (download_plugin (demo_env empty_page) ''gamma'' empty_world))"
proof -
  let ?resp = "\<lparr>status_code = 200, json = Inl (ValueError ''Expecting value''),
          iter_content = [Chunk ''PK'', Broken (RequestException ''Connection broken'')]\<rparr>"
  have h1: "\<not> exists empty_world (zip_path ''gamma'')" by (rule empty_world_exists)
  have h2: "http_get (demo_env empty_page) (zip_request ''gamma'') = Inr ?resp" by (rule demo_gamma)
  have h3: "status_code ?resp = 200" by simp
  have h4: "open_wb (demo_env empty_page) (zip_path ''gamma'') = None" by (rule demo_open)
  have h5: "iter_content ?resp = map Chunk [''PK''] @ Broken (RequestException ''Connection broken'') # []"
    by simp
  show ?thesis
    using h1 h2 h4
      download_plugin_broken_stream_leaves_file [OF h1 h2 h3 h4 h5, of "demo_env empty_page" 2]
    by simp
qed

section \<open>Properties of fetch\_plugins\<close>

lemma fetch_loop_raise:
  "http_get env (page_request page) = Inl e \<Longrightarrow>
   fetch_loop env acc page w = Some (Inl e, w\<lparr>net_log := net_log w @ [page_request page]\<rparr>)"
  by (subst fetch_loop.simps) simp

lemma fetch_loop_status:
  "http_get env (page_request page) = Inr resp \<Longrightarrow> status_code resp \<noteq> 200 \<Longrightarrow>
   fetch_loop env acc page w = Some (Inr acc, w\<lparr>net_log := net_log w @ [page_request page]\<rparr>)"
  by (subst fetch_loop.simps) simp

lemma fetch_loop_empty:
  "serves_page env page [] \<Longrightarrow>
   fetch_loop env acc page w = Some (Inr acc, w\<lparr>net_log := net_log w @ [page_request page]\<rparr>)"
  by (subst fetch_loop.simps)
     (auto simp: serves_page_def Let_def split: sum.splits pyval.splits)

lemma fetch_loop_page:
  "serves_page env page items \<Longrightarrow> items \<noteq> [] \<Longrightarrow>
   fetch_loop env acc page w =
     fetch_loop env (acc @ items) (page + 1) (w\<lparr>net_log := net_log w @ [page_request page]\<rparr>)"
  by (subst fetch_loop.simps)
     (auto simp: serves_page_def Let_def split: sum.splits pyval.splits)

lemma fetch_loop_pages:
  "\<forall>i<length pages. serves_page env (page + int i) (pages ! i) \<and> pages ! i \<noteq> [] \<Longrightarrow>
   fetch_loop env acc page w =
     fetch_loop env (acc @ concat pages) (page + int (length pages))
       (w\<lparr>net_log := net_log w @ map (\<lambda>i. page_request (page + int i)) [0..<length pages]\<rparr>)"
proof (induction pages arbitrary: acc page w)
  case Nil
  then show ?case by simp
next
  case (Cons p ps)
  from Cons.prems have p: "serves_page env page p" "p \<noteq> []"
    by fastforce+
  have rest: "\<forall>i<length ps. serves_page env (page + 1 + int i) (ps ! i) \<and> ps ! i \<noteq> []"
  proof (intro allI impI)
    fix i assume "i < length ps"
    then have "Suc i < length (p # ps)" by simp
    with Cons.prems have "serves_page env (page + int (Suc i)) ((p # ps) ! Suc i) \<and> (p # ps) ! Suc i \<noteq> []"
      by blast
    then show "serves_page env (page + 1 + int i) (ps ! i) \<and> ps ! i \<noteq> []"
      by (simp add: ac_simps)
  qed
  have log: "map (\<lambda>i. page_request (page + int i)) [0..<length (p # ps)] =
             page_request page # map (\<lambda>i. page_request (page + 1 + int i)) [0..<length ps]"
    by (simp add: map_upt_Suc ac_simps del: upt_Suc)
  have len: "page + 1 + int (length ps) = page + int (length (p # ps))"
    by simp
  show ?case
    unfolding fetch_loop_page [OF p] Cons.IH [OF rest] log len
    by simp
qed

lemma demo_page1:
  "serves_page (demo_env t) 1
     [PyDict [(''slug'', PyStr ''alpha''), (''active_installs'', PyInt 40)],
      PyDict [(''slug'', PyStr ''beta'')]]"
  by (simp add: serves_page_def demo_env_def)

lemma demo_page2:
  "serves_page (demo_env t) 2
     [PyDict [(''slug'', PyStr ''gamma''), (''active_installs'', PyInt 900)]]"
  by (simp add: serves_page_def demo_env_def page_request_def)

lemma demo_page3: "http_get (demo_env t) (page_request 3) = t"
  by (simp add: demo_env_def page_request_def)

lemma demo_pages:
  "\<forall>i<length [[PyDict [(''slug'', PyStr ''alpha''), (''active_installs'', PyInt 40)],
                   PyDict [(''slug'', PyStr ''beta'')]],
                  [PyDict [(''slug'', PyStr ''gamma''), (''active_installs'', PyInt 900)]]].
      serves_page (demo_env t) (1 + int i)
        ([[PyDict [(''slug'', PyStr ''alpha''), (''active_installs'', PyInt 40)],
           PyDict [(''slug'', PyStr ''beta'')]],
          [PyDict [(''slug'', PyStr ''gamma''), (''active_installs'', PyInt 900)]]] ! i) \<and>
      [[PyDict [(''slug'', PyStr ''alpha''), (''active_installs'', PyInt 40)],
        PyDict [(''slug'', PyStr ''beta'')]],
       [PyDict [(''slug'', PyStr ''gamma''), (''active_installs'', PyInt 900)]]] ! i \<noteq> []"
  using demo_page1 [of t] demo_page2 [of t]
  by (simp add: less_Suc_eq)

text \<open>
  C3. When the service serves the non-empty pages \<open>pages\<close> as pages 1 to N and an empty
  page as page N+1, all with status 200, \<^verbatim>\<open>fetch_plugins\<close> returns the concatenation of
  the pages in page order and sends exactly the N+1 requests for pages 1 to N+1.
\<close>

theorem fetch_plugins_all_pages:
  assumes "\<forall>i<length pages. serves_page env (1 + int i) (pages ! i) \<and> pages ! i \<noteq> []"
      and "serves_page env (1 + int (length pages)) []"
  shows "\<exists>w'. fetch_plugins env w = Some (Inr (concat pages), w') \<and>
              files w' = files w \<and>
              net_log w' = net_log w @ map (\<lambda>i. page_request (1 + int i)) [0..<length pages + 1] \<and>
              length (net_log w') = length (net_log w) + (length pages + 1)"
  unfolding fetch_plugins_def fetch_loop_pages [OF assms(1)] fetch_loop_empty [OF assms(2)]
  by simp

theorem fetch_plugins_all_pages_witness:
  "serves_page (demo_env empty_page) 1
     [PyDict [(''slug'', PyStr ''alpha''), (''active_installs'', PyInt 40)],
      PyDict [(''slug'', PyStr ''beta'')]] \<and>
   serves_page (demo_env empty_page) 2
     [PyDict [(''slug'', PyStr ''gamma''), (''active_installs'', PyInt 900)]] \<and>
   serves_page (demo_env empty_page) 3 [] \<and>
   fetch_plugins (demo_env empty_page) empty_world =
     Some (Inr [PyDict [(''slug'', PyStr ''alpha''), (''active_installs'', PyInt 40)],
                PyDict [(''slug'', PyStr ''beta'')],
                PyDict [(''slug'', PyStr ''gamma''), (''active_installs'', PyInt 900)]],
           \<lparr>files = Map.empty, net_log = [page_request 1, page_request 2, page_request 3]\<rparr>)"
proof -
  let ?pages = "[[PyDict [(''slug'', PyStr ''alpha''), (''active_installs'', PyInt 40)],
                   PyDict [(''slug'', PyStr ''beta'')]],
                  [PyDict [(''slug'', PyStr ''gamma''), (''active_installs'', PyInt 900)]]]"
  have h1: "\<forall>i<length ?pages. serves_page (demo_env empty_page) (1 + int i) (?pages ! i) \<and> ?pages ! i \<noteq> []"
    by (rule demo_pages)
  have h2: "serves_page (demo_env empty_page) (1 + int (length ?pages)) []"
    by (simp add: serves_page_def demo_page3 empty_page_def)
  from fetch_plugins_all_pages [OF h1 h2, of empty_world]
  obtain w' where "fetch_plugins (demo_env empty_page) empty_world = Some (Inr (concat ?pages), w')"
    and "files w' = files empty_world"
    and "net_log w' = net_log empty_world @ map (\<lambda>i. page_request (1 + int i)) [0..<length ?pages + 1]"
    by blast
  then have "fetch_plugins (demo_env empty_page) empty_world =
     Some (Inr (concat ?pages),
           \<lparr>files = Map.empty, net_log = [page_request 1, page_request 2, page_request 3]\<rparr>)"
    by (cases w') (simp add: empty_world_def upt_rec)
  with h2 demo_page1 [of empty_page] demo_page2 [of empty_page] show ?thesis by simp
qed

text \<open>
  C8. When pages 1 to N are served and the request for page N+1 is answered with a status
  other than 200, \<^verbatim>\<open>fetch_plugins\<close> returns exactly the records of pages 1 to N; the
  failed page is requested once, and it is the last request.
\<close>

theorem fetch_plugins_stops_at_failed_page:
  assumes "\<forall>i<length pages. serves_page env (1 + int i) (pages ! i) \<and> pages ! i \<noteq> []"
      and "http_get env (page_request (1 + int (length pages))) = Inr resp"
      and "status_code resp \<noteq> 200"
  shows "\<exists>w'. fetch_plugins env w = Some (Inr (concat pages), w') \<and>
              files w' = files w \<and>
              net_log w' = net_log w @ map (\<lambda>i. page_request (1 + int i)) [0..<length pages + 1]"
  unfolding fetch_plugins_def fetch_loop_pages [OF assms(1)] fetch_loop_status [OF assms(2,3)]
  by simp

theorem fetch_plugins_stops_at_failed_page_witness:
  "serves_page (demo_env page_503) 1
     [PyDict [(''slug'', PyStr ''alpha''), (''active_installs'', PyInt 40)],
      PyDict [(''slug'', PyStr ''beta'')]] \<and>
   serves_page (demo_env page_503) 2
     [PyDict [(''slug'', PyStr ''gamma''), (''active_installs'', PyInt 900)]] \<and>
   http_get (demo_env page_503) (page_request 3) = page_503 \<and>
   fetch_plugins (demo_env page_503) empty_world =
     Some (Inr [PyDict [(''slug'', PyStr ''alpha''), (''active_installs'', PyInt 40)],
                PyDict [(''slug'', PyStr ''beta'')],
                PyDict [(''slug'', PyStr ''gamma''), (''active_installs'', PyInt 900)]],
           \<lparr>files = Map.empty, net_log = [page_request 1, page_request 2, page_request 3]\<rparr>)"
proof -
  let ?pages = "[[PyDict [(''slug'', PyStr ''alpha''), (''active_installs'', PyInt 40)],
                   PyDict [(''slug'', PyStr ''beta'')]],
                  [PyDict [(''slug'', PyStr ''gamma''), (''active_installs'', PyInt 900)]]]"
  let ?resp = "\<lparr>status_code = 503, json = Inl (ValueError ''Expecting value''), iter_content = []\<rparr>"
  have h1: "\<forall>i<length ?pages. serves_page (demo_env page_503) (1 + int i) (?pages ! i) \<and> ?pages ! i \<noteq> []"
    by (rule demo_pages)
  have h2: "http_get (demo_env page_503) (page_request (1 + int (length ?pages))) = Inr ?resp"
    by (simp add: demo_page3 page_503_def)
  have h3: "status_code ?resp \<noteq> 200" by simp
  from fetch_plugins_stops_at_failed_page [OF h1 h2 h3, of empty_world]
  obtain w' where "fetch_plugins (demo_env page_503) empty_world = Some (Inr (concat ?pages), w')"
    and "files w' = files empty_world"
    and "net_log w' = net_log empty_world @ map (\<lambda>i. page_request (1 + int i)) [0..<length ?pages + 1]"
    by blast
  then have "fetch_plugins (demo_env page_503) empty_world =
     Some (Inr (concat ?pages),
           \<lparr>files = Map.empty, net_log = [page_request 1, page_request 2, page_request 3]\<rparr>)"
    by (cases w') (simp add: empty_world_def upt_rec)
  with demo_page1 [of page_503] demo_page2 [of page_503] show ?thesis by (simp add: demo_page3)
qed

text \<open>
  C2. The specification says that a transport failure of a page request ends the
  enumeration and keeps the records collected so far. In the code the call of
  \<^verbatim>\<open>requests.get\<close> in \<^verbatim>\<open>fetch_plugins\<close> is not inside a \<^verbatim>\<open>try\<close>: when the request for
  page 3 times out after two pages were collected, the exception leaves
  \<^verbatim>\<open>fetch_plugins\<close> and no records are returned.
\<close>

theorem fetch_plugins_transport_failure_propagates:
  "fetch_plugins (demo_env page_timeout) empty_world =
     Some (Inl (RequestException ''Read timed out''),
           \<lparr>files = Map.empty, net_log = [page_request 1, page_request 2, page_request 3]\<rparr>)"
proof -
  let ?pages = "[[PyDict [(''slug'', PyStr ''alpha''), (''active_installs'', PyInt 40)],
                   PyDict [(''slug'', PyStr ''beta'')]],
                  [PyDict [(''slug'', PyStr ''gamma''), (''active_installs'', PyInt 900)]]]"
  have h1: "\<forall>i<length ?pages. serves_page (demo_env page_timeout) (1 + int i) (?pages ! i) \<and> ?pages ! i \<noteq> []"
    by (rule demo_pages)
  have h2: "http_get (demo_env page_timeout) (page_request (1 + int (length ?pages))) =
              Inl (RequestException ''Read timed out'')"
    by (simp add: demo_page3 page_timeout_def)
  show ?thesis
    unfolding fetch_plugins_def fetch_loop_pages [OF h1] fetch_loop_raise [OF h2]
    by (simp add: empty_world_def upt_rec)
qed

section \<open>Properties of the thread pool\<close>

text \<open>A step of a call keeps it on track and never takes a file away.\<close>

lemma task_step_on_disk_mono:
  "task_step env file_of slug t d = (t', d') \<Longrightarrow> on_disk d \<subseteq> on_disk d'"
  by (induction env file_of slug t d rule: task_step.induct)
     (auto simp: Let_def split: sum.splits option.splits if_splits)

lemma on_track_mono:
  "on_track env file_of slug d t \<Longrightarrow> on_disk d \<subseteq> on_disk d' \<Longrightarrow> on_track env file_of slug d' t"
  by (cases t) auto

lemma task_step_on_track:
  assumes "on_track env file_of slug d t" and "task_step env file_of slug t d = (t', d')"
  shows "on_track env file_of slug d' t'"
proof (cases t)
  case Start
  with assms show ?thesis by (auto split: if_splits)
next
  case Checked
  with assms show ?thesis
    by (auto simp: Let_def download_plugin_transport download_plugin_http_failure
             split: sum.splits if_splits)
next
  case (Got resp)
  with assms show ?thesis
    by (auto simp: download_plugin_open_error split: option.splits intro: exI [of _ "[]"])
next
  case (Writing cs)
  from assms(1) Writing obtain resp before where r:
    "http_get env (zip_request slug) = Inr resp" "status_code resp = 200"
    "open_wb env (zip_path slug) = None" "iter_content resp = map Chunk before @ cs"
    by auto
  show ?thesis
  proof (cases cs)
    case Nil
    with r have "iter_content resp = map Chunk before" by simp
    with r Nil Writing assms(2) show ?thesis
      by (auto simp: download_plugin_ok)
  next
    case (Cons ev rest)
    show ?thesis
    proof (cases ev)
      case (Chunk c)
      with r Cons have "iter_content resp = map Chunk (before @ [c]) @ rest" by simp
      with r(1-3) have "on_track env file_of slug d' (Writing rest)"
        unfolding on_track.simps by blast
      with Cons Chunk Writing assms(2) show ?thesis by simp
    next
      case (Broken e)
      with r Cons Writing assms(2) show ?thesis
        by (auto simp: download_plugin_broken)
    qed
  qed
next
  case (Done line)
  with assms show ?thesis by auto
qed

text \<open>
  A step sends the request of the call exactly when the call passes from not having sent
  to having sent, and puts the file on disk exactly when the call opens it.
\<close>

lemma length_filter_update:
  "i < length xs \<Longrightarrow>
   length (filter P (xs[i := y])) + (if P (xs ! i) then 1 else 0) =
   length (filter P xs) + (if P y then 1 else 0)"
proof (induction xs arbitrary: i)
  case Nil
  then show ?case by simp
next
  case (Cons x xs)
  show ?case
  proof (cases i)
    case 0
    then show ?thesis by simp
  next
    case (Suc j)
    with Cons.prems have "j < length xs" by simp
    from Cons.IH [OF this] Suc show ?thesis by simp
  qed
qed

lemma task_step_sent:
  assumes "task_step env file_of slug t d = (t', d')" and "\<not> is_Done t"
  shows "sent d' = sent d @ (if has_sent slug t' \<and> \<not> has_sent slug t then [zip_request slug] else []) \<and>
         (has_sent slug t \<longrightarrow> has_sent slug t')"
  using assms
  by (induction env file_of slug t d rule: task_step.induct)
     (auto simp: Let_def split: sum.splits option.splits if_splits)

lemma task_step_opened:
  assumes "on_track env file_of slug d t" and "task_step env file_of slug t d = (t', d')"
      and "\<not> is_Done t"
  shows "on_disk d' =
           (if has_opened env slug t' \<and> \<not> has_opened env slug t
            then insert (file_of (zip_path slug)) (on_disk d) else on_disk d) \<and>
         (has_opened env slug t \<longrightarrow> has_opened env slug t')"
proof (cases t)
  case Start
  with assms show ?thesis by (auto split: if_splits)
next
  case Checked
  with assms show ?thesis
    by (auto simp: Let_def can_open_def split: sum.splits if_splits)
next
  case (Got resp)
  with assms show ?thesis
    by (auto simp: can_open_def split: option.splits)
next
  case (Writing cs)
  from assms(1) Writing have "can_open env slug"
    by (auto simp: can_open_def)
  show ?thesis
  proof (cases cs)
    case Nil
    with assms(2) Writing \<open>can_open env slug\<close> show ?thesis by auto
  next
    case (Cons ev rest)
    with assms(2) Writing \<open>can_open env slug\<close> show ?thesis by (cases ev) auto
  qed
next
  case (Done line)
  with assms show ?thesis by simp
qed

text \<open>The invariant holds at the start and is kept by every step of the pool.\<close>

lemma pool_inv_initial: "pool_inv env file_of slugs d0 (replicate (length slugs) Start, d0)"
proof -
  have "filter (\<lambda>(slug, t). has_sent slug t \<and> zip_request slug = r)
          (zip slugs (replicate (length slugs) Start)) = []" for r
    by (auto simp: filter_empty_conv dest!: set_zip_rightD)
  then show ?thesis by (auto simp: pool_inv_def)
qed

lemma pool_step_inv:
  assumes inv: "pool_inv env file_of slugs d0 s" and st: "pool_step env file_of slugs s s'"
  shows "pool_inv env file_of slugs d0 s'"
  using st
proof cases
  case (step i ts d t' d')
  let ?s = "slugs ! i"
  from inv step(1) have len: "length ts = length slugs"
    and track: "\<And>j. j < length slugs \<Longrightarrow> on_track env file_of (slugs ! j) d (ts ! j)"
    and cnt: "\<And>r. count_list (sent d) r =
             count_list (sent d0) r +
             length (filter (\<lambda>(slug, t). has_sent slug t \<and> zip_request slug = r) (zip slugs ts))"
    and dsk: "\<And>f. f \<in> on_disk d \<longleftrightarrow>
             f \<in> on_disk d0 \<or>
             (\<exists>j<length slugs. has_opened env (slugs ! j) (ts ! j) \<and> f = file_of (zip_path (slugs ! j)))"
    by (simp_all add: pool_inv_def)
  note ti = track [OF step(4)]
  from step(6) have mono: "on_disk d \<subseteq> on_disk d'" by (rule task_step_on_disk_mono)
  have track': "on_track env file_of (slugs ! j) d' (ts[i := t'] ! j)" if j: "j < length slugs" for j
  proof (cases "j = i")
    case True
    with step(3) task_step_on_track [OF ti step(6)] show ?thesis by simp
  next
    case False
    with on_track_mono [OF track [OF j] mono] show ?thesis by simp
  qed
  note snt = task_step_sent [OF step(6,5)]
  have cnt': "count_list (sent d') r =
             count_list (sent d0) r +
             length (filter (\<lambda>(slug, t). has_sent slug t \<and> zip_request slug = r)
                       (zip slugs (ts[i := t'])))" for r
  proof -
    let ?P = "\<lambda>(slug, t). has_sent slug t \<and> zip_request slug = r"
    have i: "i < length (zip slugs ts)" using step(3,4) by simp
    have "zip slugs (ts[i := t']) = (zip slugs ts)[i := (?s, t')]"
      using update_zip [of slugs ts i "(?s, t')"] by simp
    moreover have "zip slugs ts ! i = (?s, ts ! i)" using step(3,4) by simp
    ultimately have "length (filter ?P (zip slugs (ts[i := t']))) +
          (if has_sent ?s (ts ! i) \<and> zip_request ?s = r then 1 else 0) =
        length (filter ?P (zip slugs ts)) +
          (if has_sent ?s t' \<and> zip_request ?s = r then 1 else 0)"
      using length_filter_update [OF i, of ?P "(?s, t')"] by simp
    with snt cnt [of r] show ?thesis
      by (auto split: if_splits)
  qed
  note opn = task_step_opened [OF ti step(6,5)]
  have dsk': "f \<in> on_disk d' \<longleftrightarrow>
             f \<in> on_disk d0 \<or>
             (\<exists>j<length slugs. has_opened env (slugs ! j) (ts[i := t'] ! j) \<and>
                                f = file_of (zip_path (slugs ! j)))" for f
  proof
    assume f: "f \<in> on_disk d'"
    show "f \<in> on_disk d0 \<or>
             (\<exists>j<length slugs. has_opened env (slugs ! j) (ts[i := t'] ! j) \<and>
                                f = file_of (zip_path (slugs ! j)))"
    proof (cases "f \<in> on_disk d")
      case True
      with dsk [of f] consider "f \<in> on_disk d0"
        | j where "j < length slugs" "has_opened env (slugs ! j) (ts ! j)" "f = file_of (zip_path (slugs ! j))"
        by blast
      then show ?thesis
      proof cases
        case 1
        then show ?thesis by simp
      next
        case 2
        have "has_opened env (slugs ! j) (ts[i := t'] ! j)"
        proof (cases "j = i")
          case True
          with 2 opn step(3) show ?thesis by simp
        next
          case False
          with 2 show ?thesis by simp
        qed
        with 2 show ?thesis by blast
      qed
    next
      case False
      with f opn have "has_opened env ?s t'" "f = file_of (zip_path ?s)"
        by (auto split: if_splits)
      with step(3,4) show ?thesis
        by (intro disjI2 exI [of _ i]) simp
    qed
  next
    assume "f \<in> on_disk d0 \<or>
             (\<exists>j<length slugs. has_opened env (slugs ! j) (ts[i := t'] ! j) \<and>
                                f = file_of (zip_path (slugs ! j)))"
    then consider "f \<in> on_disk d0"
      | j where "j < length slugs" "has_opened env (slugs ! j) (ts[i := t'] ! j)"
          "f = file_of (zip_path (slugs ! j))"
      by blast
    then show "f \<in> on_disk d'"
    proof cases
      case 1
      with dsk [of f] mono show ?thesis by blast
    next
      case 2
      show ?thesis
      proof (cases "j = i")
        case True
        with 2 step(3) have t': "has_opened env ?s t'" "f = file_of (zip_path ?s)" by simp_all
        show ?thesis
        proof (cases "has_opened env ?s (ts ! i)")
          case True
          with t'(2) step(4) dsk [of f] have "f \<in> on_disk d" by blast
          with mono show ?thesis by blast
        next
          case False
          with t' opn show ?thesis by simp
        qed
      next
        case False
        with 2 dsk [of f] have "f \<in> on_disk d" by auto
        with mono show ?thesis by blast
      qed
    qed
  qed
  from len track' cnt' dsk' step(2) show ?thesis
    by (simp add: pool_inv_def)
qed

lemma pool_run_inv:
  "(pool_step env file_of slugs)\<^sup>*\<^sup>* (replicate (length slugs) Start, d0) s \<Longrightarrow>
   pool_inv env file_of slugs d0 s"
proof (induction rule: rtranclp_induct)
  case base
  show ?case by (rule pool_inv_initial)
next
  case (step s s')
  from step.IH step.hyps(2) show ?case by (rule pool_step_inv)
qed

lemma pool_run_skips_present:
  assumes run: "(pool_step env file_of slugs)\<^sup>*\<^sup>* (replicate (length slugs) Start, d0) (ts, d)"
      and i: "i < length slugs" and present: "file_of (zip_path (slugs ! i)) \<in> on_disk d0"
  shows "ts ! i = Start \<or> ts ! i = Done (''[SKIP] '' @ slugs ! i @ '' (already downloaded)'')"
  using run
proof (induction rule: rtranclp_induct2)
  case refl
  from i show ?case by simp
next
  case (step ts d ts' d')
  from step.hyps(1) have "pool_inv env file_of slugs d0 (ts, d)" by (rule pool_run_inv)
  with present have here: "file_of (zip_path (slugs ! i)) \<in> on_disk d"
    by (simp add: pool_inv_def)
  from step.hyps(2) obtain j t' where ts': "ts' = ts[j := t']"
    and j: "j < length ts" "j < length slugs"
    and nd: "\<not> is_Done (ts ! j)"
    and tstep: "task_step env file_of (slugs ! j) (ts ! j) d = (t', d')"
    by (auto elim: pool_step.cases)
  show ?case
  proof (cases "j = i")
    case True
    with nd step.IH have "ts ! i = Start" by auto
    with True tstep here j ts' show ?thesis by simp
  next
    case False
    with ts' step.IH show ?thesis by simp
  qed
qed

text \<open>
  Every run of the pool ends, since each step lowers the number of steps left; the pool
  is never stuck while a call has not returned; so every run can be continued until all
  calls have returned.
\<close>

lemma task_step_decreases:
  "\<not> is_Done t \<Longrightarrow> task_step env file_of slug t d = (t', d') \<Longrightarrow>
   steps_left env slug t' < steps_left env slug t"
  by (induction env file_of slug t d rule: task_step.induct)
     (auto simp: body_length_def Let_def split: sum.splits option.splits if_splits)

lemma pool_step_decreases:
  assumes "pool_step env file_of slugs s s'"
  shows "pool_steps_left env slugs s' < pool_steps_left env slugs s"
  using assms
proof cases
  case (step i ts d t' d')
  let ?f = "\<lambda>(slug, t). steps_left env slug t"
  let ?zs = "zip slugs ts"
  from step(3,4) have i: "i < length ?zs" by simp
  have upd: "zip slugs (ts[i := t']) = ?zs[i := (slugs ! i, t')]"
    using update_zip [of slugs ts i "(slugs ! i, t')"] by simp
  have "map ?f (?zs[i := (slugs ! i, t')]) = (map ?f ?zs)[i := steps_left env (slugs ! i) t']"
    by (simp add: map_update)
  then have "sum_list (map ?f (zip slugs (ts[i := t']))) =
        sum_list (map ?f ?zs) + steps_left env (slugs ! i) t' - map ?f ?zs ! i"
    using i by (simp add: upd sum_list_update)
  moreover have "map ?f ?zs ! i = steps_left env (slugs ! i) (ts ! i)"
    using i step(3,4) by simp
  moreover have "steps_left env (slugs ! i) t' < steps_left env (slugs ! i) (ts ! i)"
    using step(5,6) by (rule task_step_decreases)
  moreover have "map ?f ?zs ! i \<le> sum_list (map ?f ?zs)"
  proof (rule member_le_sum_list)
    from i have "i < length (map ?f ?zs)" by simp
    then show "map ?f ?zs ! i \<in> set (map ?f ?zs)" by (rule nth_mem)
  qed simp
  ultimately show ?thesis
    using step(1,2) by (simp add: pool_steps_left_def)
qed

lemma pool_step_terminates: "wf {(s', s). pool_step env file_of slugs s s'}"
proof (rule wf_subset)
  show "wf (measure (pool_steps_left env slugs))" by simp
  show "{(s', s). pool_step env file_of slugs s s'} \<subseteq> measure (pool_steps_left env slugs)"
    by (auto dest: pool_step_decreases)
qed

lemma pool_step_progress:
  assumes "length ts = length slugs" and "\<not> list_all is_Done ts"
  shows "\<exists>s'. pool_step env file_of slugs (ts, d) s'"
proof -
  from assms(2) obtain i where i: "i < length ts" "\<not> is_Done (ts ! i)"
    by (auto simp: list_all_length)
  obtain t' d' where "task_step env file_of (slugs ! i) (ts ! i) d = (t', d')"
    by (cases "task_step env file_of (slugs ! i) (ts ! i) d")
  with i assms(1) have "pool_step env file_of slugs (ts, d) (ts[i := t'], d')"
    by (intro pool_step.step) simp_all
  then show ?thesis by blast
qed

lemma pool_step_length:
  "pool_step env file_of slugs (ts, d) (ts', d') \<Longrightarrow> length ts' = length ts"
  by (auto elim: pool_step.cases)

lemma pool_run_completes:
  "length (fst s) = length slugs \<Longrightarrow>
   \<exists>ts' d'. (pool_step env file_of slugs)\<^sup>*\<^sup>* s (ts', d') \<and> list_all is_Done ts'"
proof (induction s rule: wf_induct_rule [OF pool_step_terminates [of env file_of slugs]])
  case (1 s)
  obtain ts d where s: "s = (ts, d)" by (cases s)
  show ?case
  proof (cases "list_all is_Done ts")
    case True
    with s show ?thesis by blast
  next
    case False
    with "1.prems" s obtain s' where st: "pool_step env file_of slugs (ts, d) s'"
      using pool_step_progress by fastforce
    obtain ts1 d1 where s': "s' = (ts1, d1)" by (cases s')
    with st "1.prems" s have "length (fst s') = length slugs"
      by (auto dest: pool_step_length)
    with "1.IH" [of s'] st s obtain ts' d' where
      "(pool_step env file_of slugs)\<^sup>*\<^sup>* s' (ts', d')" "list_all is_Done ts'"
      by auto
    with st s show ?thesis
      by (blast intro: converse_rtranclp_into_rtranclp)
  qed
qed

lemma run_schedule_reachable:
  "(pool_step env file_of slugs)\<^sup>*\<^sup>* s (run_schedule env file_of slugs sched s)"
proof (induction sched arbitrary: s)
  case Nil
  show ?case by simp
next
  case (Cons i sched)
  obtain ts d where s: "s = (ts, d)" by (cases s)
  show ?case
  proof (cases "i < length ts \<and> i < length slugs")
    case True
    obtain t' d' where st: "task_step env file_of (slugs ! i) (ts ! i) d = (t', d')"
      by (cases "task_step env file_of (slugs ! i) (ts ! i) d")
    have one: "(pool_step env file_of slugs)\<^sup>*\<^sup>* (ts, d) (ts[i := t'], d')"
    proof (cases "is_Done (ts ! i)")
      case True
      then obtain line where "ts ! i = Done line" by (cases "ts ! i") simp_all
      with st have "t' = ts ! i" "d' = d" by simp_all
      then show ?thesis by simp
    next
      case False
      with True st have "pool_step env file_of slugs (ts, d) (ts[i := t'], d')"
        by (intro pool_step.step) simp_all
      then show ?thesis by (rule r_into_rtranclp)
    qed
    have "run_schedule env file_of slugs (i # sched) (ts, d) =
          run_schedule env file_of slugs sched (ts[i := t'], d')"
      using True st by simp
    with one Cons.IH [of "(ts[i := t'], d')"] s show ?thesis
      by (simp only: rtranclp_trans)
  next
    case False
    then have "run_schedule env file_of slugs (i # sched) (ts, d) =
               run_schedule env file_of slugs sched (ts, d)"
      by auto
    with Cons.IH [of "(ts, d)"] s show ?thesis by simp
  qed
qed

text \<open>
  A call whose request is answered with a status other than 200 changes no file. Taking
  it out of a run leaves a run of the other calls, and putting it in front of a run of
  the other calls gives a run of all of them.
\<close>

lemma length_drop_nth: "k < length xs \<Longrightarrow> length (drop_nth k xs) = length xs - 1"
  by (simp add: drop_nth_def)

lemma nth_drop_nth:
  "k < length xs \<Longrightarrow> drop_nth k xs ! j = (if j < k then xs ! j else xs ! Suc j)"
  by (auto simp: drop_nth_def nth_append min_def)

lemma drop_nth_update_same: "drop_nth k (xs[k := x]) = drop_nth k xs"
  by (simp add: drop_nth_def)

lemma drop_nth_update_before:
  "i < k \<Longrightarrow> drop_nth k (xs[i := x]) = (drop_nth k xs)[i := x]"
  by (cases "k \<le> length xs")
     (simp_all add: drop_nth_def take_update_swap list_update_append min_def)

lemma drop_nth_update_after:
  "k < i \<Longrightarrow> i < length xs \<Longrightarrow> drop_nth k (xs[i := x]) = (drop_nth k xs)[i - 1 := x]"
  by (cases i) (simp_all add: drop_nth_def drop_update_swap list_update_append min_def)

lemma drop_nth_replicate: "k < n \<Longrightarrow> drop_nth k (replicate n x) = replicate (n - 1) x"
  by (simp add: drop_nth_def replicate_add [symmetric] min_def)

lemma drop_nth_update_shift:
  "k < length xs \<Longrightarrow> j < length xs - 1 \<Longrightarrow>
   drop_nth k (xs[(if j < k then j else Suc j) := x]) = (drop_nth k xs)[j := x]"
  by (auto simp: drop_nth_update_before drop_nth_update_after)

lemma task_step_disk_cong:
  "on_disk d = on_disk e \<Longrightarrow>
   fst (task_step env file_of slug t d) = fst (task_step env file_of slug t e) \<and>
   on_disk (snd (task_step env file_of slug t d)) = on_disk (snd (task_step env file_of slug t e))"
  by (induction env file_of slug t d rule: task_step.induct)
     (auto simp: Let_def split: sum.splits option.splits if_splits)

lemma pool_run_without_failed:
  assumes k: "k < length slugs"
      and get: "http_get env (zip_request (slugs ! k)) = Inr resp"
      and st: "status_code resp \<noteq> 200"
      and run: "(pool_step env file_of slugs)\<^sup>*\<^sup>* (replicate (length slugs) Start, d0) (ts, d)"
  shows "length ts = length slugs \<and>
         (ts ! k = Start \<or> ts ! k = Checked \<or> is_Done (ts ! k)) \<and>
         (\<exists>e. (pool_step env file_of (drop_nth k slugs))\<^sup>*\<^sup>*
                 (replicate (length slugs - 1) Start, d0) (drop_nth k ts, e) \<and>
              on_disk e = on_disk d)"
  using run
proof (induction rule: rtranclp_induct2)
  case refl
  from k show ?case by (auto simp: drop_nth_replicate)
next
  case (step ts d ts' d')
  from step.IH obtain e where len: "length ts = length slugs"
    and tk: "ts ! k = Start \<or> ts ! k = Checked \<or> is_Done (ts ! k)"
    and red: "(pool_step env file_of (drop_nth k slugs))\<^sup>*\<^sup>*
                 (replicate (length slugs - 1) Start, d0) (drop_nth k ts, e)"
    and e: "on_disk e = on_disk d"
    by blast
  from step.hyps(2) obtain i t' where ts': "ts' = ts[i := t']"
    and i: "i < length ts" "i < length slugs"
    and nd: "\<not> is_Done (ts ! i)"
    and tstep: "task_step env file_of (slugs ! i) (ts ! i) d = (t', d')"
    by (auto elim: pool_step.cases)
  show ?case
  proof (cases "i = k")
    case True
    with nd tk have start: "ts ! k = Start \<or> ts ! k = Checked" by auto
    with tstep True get st have "t' = Checked \<or> is_Done t'" and "on_disk d' = on_disk d"
      by (auto simp: Let_def split: if_splits)
    with True ts' i len red e show ?thesis
      by (auto simp: drop_nth_update_same)
  next
    case False
    let ?j = "if i < k then i else i - 1"
    let ?st = "task_step env file_of (slugs ! i) (ts ! i) e"
    from False i len k have j: "?j < length (drop_nth k ts)" "?j < length (drop_nth k slugs)"
      by (auto simp: length_drop_nth)
    from False k len i have nth: "drop_nth k ts ! ?j = ts ! i" "drop_nth k slugs ! ?j = slugs ! i"
      by (auto simp: nth_drop_nth)
    from task_step_disk_cong [OF e, of env file_of "slugs ! i" "ts ! i"] tstep
    have same: "fst ?st = t'" "on_disk (snd ?st) = on_disk d'" by simp_all
    have "pool_step env file_of (drop_nth k slugs) (drop_nth k ts, e)
            ((drop_nth k ts)[?j := t'], snd ?st)"
    proof (rule pool_step.step)
      show "?j < length (drop_nth k ts)" by (rule j)
      show "?j < length (drop_nth k slugs)" by (rule j)
      show "\<not> is_Done (drop_nth k ts ! ?j)" using nd nth by simp
      show "task_step env file_of (drop_nth k slugs ! ?j) (drop_nth k ts ! ?j) e = (t', snd ?st)"
        using same(1) nth by (simp add: prod_eq_iff)
    qed
    moreover have "drop_nth k (ts[i := t']) = (drop_nth k ts)[?j := t']"
      using False i by (auto simp: drop_nth_update_before drop_nth_update_after)
    ultimately have "(pool_step env file_of (drop_nth k slugs))\<^sup>*\<^sup>*
               (replicate (length slugs - 1) Start, d0) (drop_nth k (ts[i := t']), snd ?st)"
      using red by (simp add: rtranclp.rtrancl_into_rtrancl)
    with same(2) ts' len tk False show ?thesis
      by auto
  qed
qed

lemma pool_run_with_failed:
  assumes k: "k < length slugs"
      and get: "http_get env (zip_request (slugs ! k)) = Inr resp"
      and st: "status_code resp \<noteq> 200"
      and run: "(pool_step env file_of (drop_nth k slugs))\<^sup>*\<^sup>*
                  (replicate (length slugs - 1) Start, d0) (us, e)"
  shows "\<exists>ts d. (pool_step env file_of slugs)\<^sup>*\<^sup>* (replicate (length slugs) Start, d0) (ts, d) \<and>
                length ts = length slugs \<and> is_Done (ts ! k) \<and> drop_nth k ts = us \<and>
                on_disk d = on_disk e"
  using run
proof (induction rule: rtranclp_induct2)
  case refl
  let ?init = "replicate (length slugs) Start"
  let ?s = "slugs ! k"
  have k': "k < length ?init" using k by simp
  have nd: "\<not> is_Done (?init ! k)" using k by simp
  show ?case
  proof (cases "file_of (zip_path ?s) \<in> on_disk d0")
    case True
    let ?l = "Done (''[SKIP] '' @ ?s @ '' (already downloaded)'')"
    have "task_step env file_of ?s (?init ! k) d0 = (?l, d0)" using True k by simp
    with k' k nd have "pool_step env file_of slugs (?init, d0) (?init[k := ?l], d0)"
      by (rule pool_step.step)
    then have "(pool_step env file_of slugs)\<^sup>*\<^sup>* (?init, d0) (?init[k := ?l], d0)"
      by (rule r_into_rtranclp)
    moreover have "drop_nth k (?init[k := ?l]) = replicate (length slugs - 1) Start"
      using k by (simp add: drop_nth_update_same drop_nth_replicate)
    ultimately show ?thesis using k by (intro exI [of _ "?init[k := ?l]"] exI [of _ d0]) simp
  next
    case False
    let ?d1 = "d0\<lparr>sent := sent d0 @ [zip_request ?s]\<rparr>"
    let ?l = "Done (''[FAIL] '' @ ?s @ '' (HTTP '' @ str_int (status_code resp) @ '')'')"
    have "task_step env file_of ?s (?init ! k) d0 = (Checked, d0)" using False k by simp
    with k' k nd have one: "pool_step env file_of slugs (?init, d0) (?init[k := Checked], d0)"
      by (rule pool_step.step)
    have "task_step env file_of ?s (?init[k := Checked] ! k) d0 = (?l, ?d1)"
      using k get st by simp
    moreover have "k < length (?init[k := Checked])" using k by simp
    moreover have "\<not> is_Done (?init[k := Checked] ! k)" using k by simp
    ultimately have "pool_step env file_of slugs (?init[k := Checked], d0)
                       (?init[k := Checked, k := ?l], ?d1)"
      using k by (intro pool_step.step) simp_all
    with one have "(pool_step env file_of slugs)\<^sup>*\<^sup>* (?init, d0) (?init[k := ?l], ?d1)"
      by (simp add: rtranclp.rtrancl_into_rtrancl)
    moreover have "drop_nth k (?init[k := ?l]) = replicate (length slugs - 1) Start"
      using k by (simp add: drop_nth_update_same drop_nth_replicate)
    ultimately show ?thesis using k by (intro exI [of _ "?init[k := ?l]"] exI [of _ ?d1]) simp
  qed
next
  case (step us e us' e')
  from step.IH obtain ts d where
    full: "(pool_step env file_of slugs)\<^sup>*\<^sup>* (replicate (length slugs) Start, d0) (ts, d)"
    and len: "length ts = length slugs" and dk: "is_Done (ts ! k)"
    and us: "drop_nth k ts = us" and d: "on_disk d = on_disk e"
    by blast
  from step.hyps(2) obtain j t' where us': "us' = us[j := t']"
    and j: "j < length us" "j < length (drop_nth k slugs)"
    and nd: "\<not> is_Done (us ! j)"
    and tstep: "task_step env file_of (drop_nth k slugs ! j) (us ! j) e = (t', e')"
    by (auto elim: pool_step.cases)
  let ?i = "if j < k then j else Suc j"
  let ?st = "task_step env file_of (slugs ! ?i) (ts ! ?i) d"
  from j k len us have i: "?i < length ts" "?i < length slugs" "?i \<noteq> k"
    by (auto simp: length_drop_nth)
  from k len us have nth: "us ! j = ts ! ?i" "drop_nth k slugs ! j = slugs ! ?i"
    by (auto simp: nth_drop_nth)
  from task_step_disk_cong [OF d, of env file_of "slugs ! ?i" "ts ! ?i"] tstep nth
  have same: "fst ?st = t'" "on_disk (snd ?st) = on_disk e'" by simp_all
  have "pool_step env file_of slugs (ts, d) (ts[?i := t'], snd ?st)"
  proof (rule pool_step.step)
    show "?i < length ts" by (rule i)
    show "?i < length slugs" by (rule i)
    show "\<not> is_Done (ts ! ?i)" using nd nth by simp
    show "task_step env file_of (slugs ! ?i) (ts ! ?i) d = (t', snd ?st)"
      using same(1) by (simp add: prod_eq_iff)
  qed
  with full have "(pool_step env file_of slugs)\<^sup>*\<^sup>* (replicate (length slugs) Start, d0)
                    (ts[?i := t'], snd ?st)"
    by (simp add: rtranclp.rtrancl_into_rtrancl)
  moreover have "drop_nth k (ts[?i := t']) = us'"
    using drop_nth_update_shift [of k ts j t'] k len j us us' by (simp add: length_drop_nth)
  moreover have "is_Done (ts[?i := t'] ! k)" using dk i(3) by simp
  ultimately show ?case using len same(2)
    by (intro exI [of _ "ts[?i := t']"] exI [of _ "snd ?st"]) simp
qed

text \<open>
  A run of the concrete service with the slug \<open>alpha\<close> given twice: both calls test for
  the file before either opens it, so both download.
\<close>

lemma demo_pool_run:
  "run_schedule (demo_env t) (\<lambda>p. p) [''alpha'', ''beta'', ''alpha'']
     [0, 2, 1, 1, 0, 0, 0, 0, 0, 2, 2, 2, 2, 2]
     (replicate (length [''alpha'', ''beta'', ''alpha'']) Start, empty_disk) =
   ([Done ''[OK] alpha'', Done ''[FAIL] beta (HTTP 500)'', Done ''[OK] alpha''],
    \<lparr>on_disk = {zip_path ''alpha''},
     sent = [zip_request ''beta'', zip_request ''alpha'', zip_request ''alpha'']\<rparr>)"
  by (simp add: demo_alpha demo_beta demo_open str_int_500 empty_disk_def numeral_2_eq_2)

text \<open>
  C7. For every list of slugs and every way the threads interleave: every run of the pool
  ends, and until all calls have returned some call can take a step; there is one task per
  slug, and no call ends with an exception. The line a call returns is the skip line, with
  the file then on disk, or else the line \<^verbatim>\<open>download_plugin\<close> returns for that slug when
  its file is absent; it is the skip line whenever the file was on disk from the start.
  Each call sends its request at most once: a request occurs in the log once for every
  call with that request that has sent it, which for a call that has returned means that
  it did not skip. A file is on disk exactly if it was there at the start or a call has
  opened it. A call whose request is answered with a status other than 200 returns the
  \<^verbatim>\<open>[FAIL]\<close> line (or the skip line); without it the other calls have a run with the
  same tasks and the same files, and every run of the other calls is one of the runs they
  have beside it.
\<close>

theorem pool_one_outcome_per_slug:
  "wf {(s', s). pool_step env file_of slugs s s'} \<and>
   (\<exists>ts d. (pool_step env file_of slugs)\<^sup>*\<^sup>* (replicate (length slugs) Start, d0) (ts, d) \<and>
            list_all is_Done ts) \<and>
   (\<forall>ts d. (pool_step env file_of slugs)\<^sup>*\<^sup>* (replicate (length slugs) Start, d0) (ts, d) \<longrightarrow>
      length ts = length slugs \<and>
      (\<not> list_all is_Done ts \<longrightarrow> (\<exists>s'. pool_step env file_of slugs (ts, d) s')) \<and>
      (\<forall>i<length slugs. is_Done (ts ! i) \<longrightarrow>
         line_of (ts ! i) = ''[SKIP] '' @ slugs ! i @ '' (already downloaded)'' \<and>
         file_of (zip_path (slugs ! i)) \<in> on_disk d \<or>
         line_of (ts ! i) \<noteq> ''[SKIP] '' @ slugs ! i @ '' (already downloaded)'' \<and>
         (\<forall>w. \<not> exists w (zip_path (slugs ! i)) \<longrightarrow>
              fst (download_plugin env (slugs ! i) w) = Inr (line_of (ts ! i)))) \<and>
      (\<forall>i<length slugs. file_of (zip_path (slugs ! i)) \<in> on_disk d0 \<longrightarrow> is_Done (ts ! i) \<longrightarrow>
         line_of (ts ! i) = ''[SKIP] '' @ slugs ! i @ '' (already downloaded)'') \<and>
      (\<forall>r. count_list (sent d) r =
             count_list (sent d0) r +
             length (filter (\<lambda>(slug, t). has_sent slug t \<and> zip_request slug = r) (zip slugs ts))) \<and>
      (\<forall>f. f \<in> on_disk d \<longleftrightarrow>
             f \<in> on_disk d0 \<or>
             (\<exists>i<length slugs. has_opened env (slugs ! i) (ts ! i) \<and>
                                f = file_of (zip_path (slugs ! i)))) \<and>
      (\<forall>k resp. k < length slugs \<longrightarrow> http_get env (zip_request (slugs ! k)) = Inr resp \<longrightarrow>
         status_code resp \<noteq> 200 \<longrightarrow>
         (is_Done (ts ! k) \<longrightarrow>
            line_of (ts ! k) = ''[SKIP] '' @ slugs ! k @ '' (already downloaded)'' \<or>
            line_of (ts ! k) =
              ''[FAIL] '' @ slugs ! k @ '' (HTTP '' @ str_int (status_code resp) @ '')'') \<and>
         (\<exists>e. (pool_step env file_of (drop_nth k slugs))\<^sup>*\<^sup>*
                 (replicate (length slugs - 1) Start, d0) (drop_nth k ts, e) \<and>
              on_disk e = on_disk d))) \<and>
   (\<forall>k resp us e. k < length slugs \<longrightarrow> http_get env (zip_request (slugs ! k)) = Inr resp \<longrightarrow>
      status_code resp \<noteq> 200 \<longrightarrow>
      (pool_step env file_of (drop_nth k slugs))\<^sup>*\<^sup>* (replicate (length slugs - 1) Start, d0) (us, e) \<longrightarrow>
      (\<exists>ts d. (pool_step env file_of slugs)\<^sup>*\<^sup>* (replicate (length slugs) Start, d0) (ts, d) \<and>
               is_Done (ts ! k) \<and> drop_nth k ts = us \<and> on_disk d = on_disk e))"
proof (intro conjI allI impI)
  show "wf {(s', s). pool_step env file_of slugs s s'}"
    by (rule pool_step_terminates)
next
  show "\<exists>ts d. (pool_step env file_of slugs)\<^sup>*\<^sup>* (replicate (length slugs) Start, d0) (ts, d) \<and>
            list_all is_Done ts"
    using pool_run_completes [of "(replicate (length slugs) Start, d0)" slugs env file_of]
    by simp
next
  fix ts d
  assume run: "(pool_step env file_of slugs)\<^sup>*\<^sup>* (replicate (length slugs) Start, d0) (ts, d)"
  then have inv: "pool_inv env file_of slugs d0 (ts, d)" by (rule pool_run_inv)
  then show len: "length ts = length slugs" by (simp add: pool_inv_def)
  show "\<exists>s'. pool_step env file_of slugs (ts, d) s'" if "\<not> list_all is_Done ts"
    using len that by (rule pool_step_progress)
  show "line_of (ts ! i) = ''[SKIP] '' @ slugs ! i @ '' (already downloaded)'' \<and>
         file_of (zip_path (slugs ! i)) \<in> on_disk d \<or>
         line_of (ts ! i) \<noteq> ''[SKIP] '' @ slugs ! i @ '' (already downloaded)'' \<and>
         (\<forall>w. \<not> exists w (zip_path (slugs ! i)) \<longrightarrow>
              fst (download_plugin env (slugs ! i) w) = Inr (line_of (ts ! i)))"
    if i: "i < length slugs" and dn: "is_Done (ts ! i)" for i
  proof -
    from dn obtain line where l: "ts ! i = Done line" by (cases "ts ! i") simp_all
    from inv i have "on_track env file_of (slugs ! i) d (ts ! i)" by (simp add: pool_inv_def)
    with l show ?thesis by simp
  qed
  show "line_of (ts ! i) = ''[SKIP] '' @ slugs ! i @ '' (already downloaded)''"
    if "i < length slugs" "file_of (zip_path (slugs ! i)) \<in> on_disk d0" "is_Done (ts ! i)" for i
    using pool_run_skips_present [OF run that(1,2)] that(3) by auto
  show "count_list (sent d) r =
             count_list (sent d0) r +
             length (filter (\<lambda>(slug, t). has_sent slug t \<and> zip_request slug = r) (zip slugs ts))" for r
    using inv by (simp add: pool_inv_def)
  show "f \<in> on_disk d \<longleftrightarrow>
             f \<in> on_disk d0 \<or>
             (\<exists>i<length slugs. has_opened env (slugs ! i) (ts ! i) \<and>
                                f = file_of (zip_path (slugs ! i)))" for f
    using inv by (simp add: pool_inv_def)
  fix k resp
  assume k: "k < length slugs" and get: "http_get env (zip_request (slugs ! k)) = Inr resp"
    and st: "status_code resp \<noteq> 200"
  show "line_of (ts ! k) = ''[SKIP] '' @ slugs ! k @ '' (already downloaded)'' \<or>
        line_of (ts ! k) = ''[FAIL] '' @ slugs ! k @ '' (HTTP '' @ str_int (status_code resp) @ '')''"
    if dn: "is_Done (ts ! k)"
  proof -
    from dn obtain line where l: "ts ! k = Done line" by (cases "ts ! k") simp_all
    from inv k have tr: "on_track env file_of (slugs ! k) d (ts ! k)" by (simp add: pool_inv_def)
    have "\<not> exists empty_world (zip_path (slugs ! k))" by (rule empty_world_exists)
    then have "fst (download_plugin env (slugs ! k) empty_world) =
        Inr (''[FAIL] '' @ slugs ! k @ '' (HTTP '' @ str_int (status_code resp) @ '')'')"
      using get st by (simp add: download_plugin_http_failure)
    with tr l empty_world_exists [of "zip_path (slugs ! k)"] show ?thesis
      by auto
  qed
  from pool_run_without_failed [OF k get st run]
  show "\<exists>e. (pool_step env file_of (drop_nth k slugs))\<^sup>*\<^sup>*
                 (replicate (length slugs - 1) Start, d0) (drop_nth k ts, e) \<and>
              on_disk e = on_disk d"
    by blast
next
  fix k resp us e
  assume "k < length slugs" "http_get env (zip_request (slugs ! k)) = Inr resp"
    "status_code resp \<noteq> 200"
    "(pool_step env file_of (drop_nth k slugs))\<^sup>*\<^sup>* (replicate (length slugs - 1) Start, d0) (us, e)"
  from pool_run_with_failed [OF this]
  show "\<exists>ts d. (pool_step env file_of slugs)\<^sup>*\<^sup>* (replicate (length slugs) Start, d0) (ts, d) \<and>
               is_Done (ts ! k) \<and> drop_nth k ts = us \<and> on_disk d = on_disk e"
    by blast
qed

theorem pool_one_outcome_per_slug_witness:
  "(pool_step (demo_env empty_page) (\<lambda>p. p) [''alpha'', ''beta'', ''alpha''])\<^sup>*\<^sup>*
     (replicate (length [''alpha'', ''beta'', ''alpha'']) Start, empty_disk)
     ([Done ''[OK] alpha'', Done ''[FAIL] beta (HTTP 500)'', Done ''[OK] alpha''],
      \<lparr>on_disk = {zip_path ''alpha''},
       sent = [zip_request ''beta'', zip_request ''alpha'', zip_request ''alpha'']\<rparr>) \<and>
   wf {(s', s). pool_step (demo_env empty_page) (\<lambda>p. p) [''alpha'', ''beta'', ''alpha''] s s'} \<and>
   list_all is_Done [Done ''[OK] alpha'', Done ''[FAIL] beta (HTTP 500)'', Done ''[OK] alpha''] \<and>
   fst (download_plugin (demo_env empty_page) ''alpha'' empty_world) = Inr ''[OK] alpha'' \<and>
   count_list [zip_request ''beta'', zip_request ''alpha'', zip_request ''alpha'']
     (zip_request ''alpha'') = 2 \<and>
   http_get (demo_env empty_page) (zip_request ''beta'') =
     Inr \<lparr>status_code = 500, json = Inl (ValueError ''Expecting value''), iter_content = []\<rparr> \<and>
   (\<exists>e. (pool_step (demo_env empty_page) (\<lambda>p. p) [''alpha'', ''alpha''])\<^sup>*\<^sup>*
          ([Start, Start], empty_disk) ([Done ''[OK] alpha'', Done ''[OK] alpha''], e) \<and>
        on_disk e = {zip_path ''alpha''})"
proof -
  let ?env = "demo_env empty_page"
  let ?slugs = "[''alpha'', ''beta'', ''alpha'']"
  let ?ts = "[Done ''[OK] alpha'', Done ''[FAIL] beta (HTTP 500)'', Done ''[OK] alpha'']"
  let ?d = "\<lparr>on_disk = {zip_path ''alpha''},
       sent = [zip_request ''beta'', zip_request ''alpha'', zip_request ''alpha'']\<rparr>"
  let ?resp = "\<lparr>status_code = 500, json = Inl (ValueError ''Expecting value''), iter_content = []\<rparr>"
  note main = pool_one_outcome_per_slug [of ?env "\<lambda>p. p" ?slugs empty_disk]
  have run: "(pool_step ?env (\<lambda>p. p) ?slugs)\<^sup>*\<^sup>* (replicate (length ?slugs) Start, empty_disk) (?ts, ?d)"
    using run_schedule_reachable
      [of ?env "\<lambda>p. p" ?slugs "(replicate (length ?slugs) Start, empty_disk)"
          "[0, 2, 1, 1, 0, 0, 0, 0, 0, 2, 2, 2, 2, 2]"]
    unfolding demo_pool_run .
  from main have wf: "wf {(s', s). pool_step ?env (\<lambda>p. p) ?slugs s s'}" by blast
  have all: "list_all is_Done ?ts" by simp
  from main run have
    "\<forall>i<length ?slugs. is_Done (?ts ! i) \<longrightarrow>
         line_of (?ts ! i) = ''[SKIP] '' @ ?slugs ! i @ '' (already downloaded)'' \<and>
         zip_path (?slugs ! i) \<in> on_disk ?d \<or>
         line_of (?ts ! i) \<noteq> ''[SKIP] '' @ ?slugs ! i @ '' (already downloaded)'' \<and>
         (\<forall>w. \<not> exists w (zip_path (?slugs ! i)) \<longrightarrow>
              fst (download_plugin ?env (?slugs ! i) w) = Inr (line_of (?ts ! i)))"
    by blast
  from this [rule_format, of 0] empty_world_exists [of "zip_path ''alpha''"]
  have alone: "fst (download_plugin ?env ''alpha'' empty_world) = Inr ''[OK] alpha''"
    by simp
  from main run have
    "\<forall>r. count_list (sent ?d) r =
         count_list (sent empty_disk) r +
         length (filter (\<lambda>(slug, t). has_sent slug t \<and> zip_request slug = r) (zip ?slugs ?ts))"
    by blast
  from this [rule_format, of "zip_request ''alpha''"]
  have twice: "count_list [zip_request ''beta'', zip_request ''alpha'', zip_request ''alpha'']
     (zip_request ''alpha'') = 2"
    by (simp add: empty_disk_def zip_request_def zip_url_def)
  have get: "http_get ?env (zip_request (?slugs ! 1)) = Inr ?resp" by (simp add: demo_beta)
  have st: "status_code ?resp \<noteq> 200" by simp
  from main run have
    "\<forall>k resp. k < length ?slugs \<longrightarrow> http_get ?env (zip_request (?slugs ! k)) = Inr resp \<longrightarrow>
         status_code resp \<noteq> 200 \<longrightarrow>
         (\<exists>e. (pool_step ?env (\<lambda>p. p) (drop_nth k ?slugs))\<^sup>*\<^sup>*
                 (replicate (length ?slugs - 1) Start, empty_disk) (drop_nth k ?ts, e) \<and>
              on_disk e = on_disk ?d)"
    by blast
  from this [rule_format, of 1, OF _ get st]
  have without: "\<exists>e. (pool_step ?env (\<lambda>p. p) [''alpha'', ''alpha''])\<^sup>*\<^sup>*
          ([Start, Start], empty_disk) ([Done ''[OK] alpha'', Done ''[OK] alpha''], e) \<and>
        on_disk e = {zip_path ''alpha''}"
    by (simp add: drop_nth_def)
  from run wf all alone twice demo_beta [of empty_page] without show ?thesis
    by (simp only: simp_thms)
qed

end
